(* ===== verification/Prelude.thy ===== *)
theory Prelude
  imports Main "HOL-Library.Multiset" "HOL-Library.Product_Lexorder"
begin

text \<open>
  Shared vocabulary of the development: the index arithmetic of an array-backed
  binary heap (Python's \<open>heapq\<close> writes \<open>(pos - 1) >> 1\<close> for the parent and
  \<open>2*pos + 1\<close> for the left child), multiset facts about list updates used when an
  element is moved through a "hole", and the named collections the component
  theories feed.
\<close>

named_theorems heap_index "index arithmetic of array heaps"
named_theorems mset_moves "multiset facts about moving a list element into a hole"

subsection \<open>Heap index arithmetic\<close>

text \<open>
  Python computes the parent of a position \<open>pos > 0\<close> as \<open>(pos - 1) >> 1\<close>;
  on non-negative integers the shift is division by two.
\<close>

abbreviation parent :: "nat \<Rightarrow> nat" where
  "parent i \<equiv> (i - 1) div 2"

lemma parent_less [heap_index]: "0 < i \<Longrightarrow> parent i < i"
  by simp

lemma parent_of_left [heap_index]: "parent (2 * p + 1) = p"
  by simp

lemma parent_of_right [heap_index]: "parent (2 * p + 2) = p"
  by simp

lemma parent_eq_iff [heap_index]:
  "0 < i \<Longrightarrow> parent i = p \<longleftrightarrow> i = 2 * p + 1 \<or> i = 2 * p + 2"
  by auto

lemma child_gt_parent [heap_index]: "0 < i \<Longrightarrow> parent i = p \<Longrightarrow> p < i"
  by auto

subsection \<open>Moving an element through a hole\<close>

text \<open>
  Both sift loops of \<open>heapq\<close> keep one position as a hole: they copy a
  neighbour into it and move the hole there. Filled with the pending item,
  the list before and after such a move differ by a swap, so its multiset is
  unchanged.
\<close>

lemma mset_move_hole [mset_moves]:
  assumes "i < length xs" "j < length xs" "i \<noteq> j"
  shows "mset (xs[i := xs ! j, j := a]) = mset (xs[i := a])"
proof -
  let ?ys = "xs[i := a]"
  have "?ys[j := ?ys ! i, i := ?ys ! j] = xs[i := xs ! j, j := a]"
    using assms by (auto intro!: nth_equalityI simp: nth_list_update)
  moreover have "mset (?ys[j := ?ys ! i, i := ?ys ! j]) = mset ?ys"
    using assms by (intro mset_swap) simp_all
  ultimately show ?thesis by simp
qed

lemma mset_butlast_last [mset_moves]:
  "xs \<noteq> [] \<Longrightarrow> mset xs = add_mset (last xs) (mset (butlast xs))"
  by (metis add_mset_add_single append_butlast_last_id mset.simps(2) mset_append
      mset_single_iff_right)

end
