(* ===== verification/Heapq.thy ===== *)
theory Heapq
  imports Prelude
begin

text \<open>
  Python's \<open>heapq\<close> module (CPython \<open>Lib/heapq.py\<close>), the priority queue the
  engine calls: \<open>heappush\<close>, \<open>heappop\<close> and their helpers \<open>_siftdown\<close>
  (move an item towards the root) and \<open>_siftup\<close> (move the hole left by the
  root down to a leaf along the smaller children, then sift the item back up).
  A heap is a Python list; indices are \<open>nat\<close>, since the module only ever
  computes non-negative positions. The list updates are the module's
  \<open>heap[pos] = ...\<close> assignments. The theory proves the module's contract:
  both operations keep the heap invariant, \<open>heappush\<close> adds its item to the
  multiset of entries, and \<open>heappop\<close> removes and returns a least entry.
\<close>

subsection \<open>The operations\<close>

text \<open>The \<open>while pos > startpos\<close> loop of \<open>_siftdown\<close>, with \<open>newitem\<close> in hand.\<close>

function siftdown_loop :: "'a::linorder list \<Rightarrow> nat \<Rightarrow> nat \<Rightarrow> 'a \<Rightarrow> 'a list" where
  "siftdown_loop heap startpos pos newitem =
     (if startpos < pos then
        (let parentpos = (pos - 1) div 2; parent = heap ! parentpos in
         if newitem < parent then siftdown_loop (heap[pos := parent]) startpos parentpos newitem
         else heap[pos := newitem])
      else heap[pos := newitem])"
  by pat_completeness auto
termination
  by (relation "measure (\<lambda>(heap, startpos, pos, newitem). pos)") auto

declare siftdown_loop.simps [simp del]

definition siftdown :: "'a::linorder list \<Rightarrow> nat \<Rightarrow> nat \<Rightarrow> 'a list" where
  "siftdown heap startpos pos = siftdown_loop heap startpos pos (heap ! pos)"

text \<open>
  The \<open>while childpos < endpos\<close> loop of \<open>_siftup\<close>: it returns the list and
  the position where the hole ended.
\<close>

function siftup_loop :: "'a::linorder list \<Rightarrow> nat \<Rightarrow> nat \<Rightarrow> 'a list \<times> nat" where
  "siftup_loop heap endpos pos =
     (let childpos = 2 * pos + 1 in
      if childpos < endpos then
        (let rightpos = childpos + 1;
             childpos' = (if rightpos < endpos \<and> \<not> heap ! childpos < heap ! rightpos
                          then rightpos else childpos)
         in siftup_loop (heap[pos := heap ! childpos']) endpos childpos')
      else (heap, pos))"
  by pat_completeness auto
termination
  by (relation "measure (\<lambda>(heap, endpos, pos). endpos - pos)") auto

declare siftup_loop.simps [simp del]

definition siftup :: "'a::linorder list \<Rightarrow> nat \<Rightarrow> 'a list" where
  "siftup heap pos =
     (let newitem = heap ! pos;
          (heap', pos') = siftup_loop heap (length heap) pos
      in siftdown (heap'[pos' := newitem]) pos pos')"

definition heappush :: "'a::linorder list \<Rightarrow> 'a \<Rightarrow> 'a list" where
  "heappush heap item = (let heap' = heap @ [item] in siftdown heap' 0 (length heap' - 1))"

text \<open>
  \<open>heap.pop()\<close> on an empty list raises \<open>IndexError\<close>: that is the result
  \<open>None\<close>. Otherwise the popped item and the new heap.
\<close>

definition heappop :: "'a::linorder list \<Rightarrow> ('a \<times> 'a list) option" where
  "heappop heap =
     (if heap = [] then None
      else
        (let lastelt = last heap; heap' = butlast heap in
         if heap' \<noteq> [] then
           (let returnitem = heap' ! 0 in Some (returnitem, siftup (heap'[0 := lastelt]) 0))
         else Some (lastelt, heap')))"

text \<open>The heap invariant of the module: no entry is smaller than its parent.\<close>

definition heap_inv :: "'a::linorder list \<Rightarrow> bool" where
  "heap_inv h \<longleftrightarrow> (\<forall>i < length h. 0 < i \<longrightarrow> h ! parent i \<le> h ! i)"

text \<open>The child \<open>_siftup\<close> moves into the hole: the right one unless the left is smaller.\<close>

abbreviation smaller_child :: "'a::linorder list \<Rightarrow> nat \<Rightarrow> nat \<Rightarrow> nat" where
  "smaller_child h n pos \<equiv>
     (if 2 * pos + 1 + 1 < n \<and> \<not> h ! (2 * pos + 1) < h ! (2 * pos + 1 + 1)
      then 2 * pos + 1 + 1 else 2 * pos + 1)"

text \<open>
  Invariants of the two sift loops, on the list with the pending item written
  into the hole. Moving up (\<open>_siftdown\<close>): every entry is ordered with its
  parent except at the hole, and the hole's parent is below the hole's
  children. Moving down (\<open>_siftup\<close>): every parent/child pair away from the
  hole is ordered, and again the hole's parent is below the hole's children.
\<close>

definition hole_up :: "'a::linorder list \<Rightarrow> nat \<Rightarrow> bool" where
  "hole_up h k \<longleftrightarrow>
     (\<forall>i < length h. 0 < i \<longrightarrow> i \<noteq> k \<longrightarrow> h ! parent i \<le> h ! i) \<and>
     (0 < k \<longrightarrow> (\<forall>i < length h. 0 < i \<longrightarrow> parent i = k \<longrightarrow> h ! parent k \<le> h ! i))"

definition hole_down :: "'a::linorder list \<Rightarrow> nat \<Rightarrow> bool" where
  "hole_down h k \<longleftrightarrow>
     (\<forall>i < length h. 0 < i \<longrightarrow> i \<noteq> k \<longrightarrow> parent i \<noteq> k \<longrightarrow> h ! parent i \<le> h ! i) \<and>
     (0 < k \<longrightarrow> (\<forall>i < length h. 0 < i \<longrightarrow> parent i = k \<longrightarrow> h ! parent k \<le> h ! i))"

text \<open>
  The abstract priority queue that \<open>heapq\<close> implements: a multiset of
  entries, insertion, and removal of a least entry.
\<close>

definition pq_insert :: "'a \<Rightarrow> 'a multiset \<Rightarrow> 'a multiset" where
  "pq_insert x M = add_mset x M"

definition pq_pop_min :: "'a::linorder multiset \<Rightarrow> ('a \<times> 'a multiset) option" where
  "pq_pop_min M = (if M = {#} then None else Some (Min_mset M, M - {#Min_mset M#}))"

subsection \<open>Shape facts: lengths and the emptiness test\<close>

lemma length_siftdown_loop [simp]: "length (siftdown_loop h s pos x) = length h"
proof (induction h s pos x rule: siftdown_loop.induct)
  case (1 heap startpos pos newitem)
  then show ?case by (subst siftdown_loop.simps) (simp add: Let_def)
qed

lemma siftup_loop_step:
  "2 * pos + 1 < n \<Longrightarrow>
   siftup_loop h n pos = siftup_loop (h[pos := h ! smaller_child h n pos]) n (smaller_child h n pos)"
  by (subst siftup_loop.simps) (simp add: Let_def)

lemma siftup_loop_stop: "\<not> 2 * pos + 1 < n \<Longrightarrow> siftup_loop h n pos = (h, pos)"
  by (subst siftup_loop.simps) (simp add: Let_def)

lemma siftup_loop_shape:
  assumes "siftup_loop h n pos = (h', pos')" "n = length h" "pos < length h"
  shows "length h' = length h \<and> pos \<le> pos' \<and> pos' < length h \<and> length h \<le> 2 * pos' + 1"
  using assms
proof (induction h n pos arbitrary: h' pos' rule: siftup_loop.induct)
  case (1 h n pos)
  show ?case
  proof (cases "2 * pos + 1 < n")
    case True
    let ?c = "smaller_child h n pos"
    have c: "pos < ?c" "?c < n" using True by auto
    have step: "siftup_loop (h[pos := h ! ?c]) n ?c = (h', pos')"
      using "1.prems"(1) by (simp only: siftup_loop_step [OF True, of h])
    note IH = "1.IH" [OF refl True refl refl, of h' pos']
    have "length h' = length h \<and> ?c \<le> pos' \<and> pos' < length h \<and> length h \<le> 2 * pos' + 1"
      using IH [OF step] c "1.prems"(2) by simp
    with c show ?thesis by linarith
  next
    case False
    with "1.prems" show ?thesis by (simp add: siftup_loop_stop)
  qed
qed
lemma length_heappush [simp]: "length (heappush h x) = Suc (length h)"
  by (simp add: heappush_def siftdown_def)

lemma heappop_None_iff [simp]: "heappop h = None \<longleftrightarrow> h = []"
  by (simp add: heappop_def Let_def)

lemma heappop_Nil [simp]: "heappop [] = None"
  by (simp add: heappop_def)

lemma length_siftup [simp]: "pos < length h \<Longrightarrow> length (siftup h pos) = length h"
  by (auto simp: siftup_def siftdown_def Let_def dest: siftup_loop_shape split: prod.splits)

lemma length_heappop:
  "heappop h = Some (x, h') \<Longrightarrow> length h = Suc (length h')"
  by (cases h rule: rev_cases) (auto simp: heappop_def Let_def split: if_splits)

subsection \<open>Multisets\<close>

lemma mset_siftdown_loop:
  "pos < length h \<Longrightarrow> mset (siftdown_loop h s pos x) = mset (h[pos := x])"
proof (induction h s pos x rule: siftdown_loop.induct)
  case (1 heap startpos pos newitem)
  show ?case
  proof (cases "startpos < pos \<and> newitem < heap ! parent pos")
    case True
    then have "siftdown_loop heap startpos pos newitem
                 = siftdown_loop (heap[pos := heap ! parent pos]) startpos (parent pos) newitem"
      by (subst siftdown_loop.simps) (simp add: Let_def)
    also have "mset \<dots> = mset (heap[pos := heap ! parent pos, parent pos := newitem])"
      using True "1.prems" by (intro "1.IH") auto
    also have "\<dots> = mset (heap[pos := newitem])"
      using True "1.prems" by (intro mset_move_hole) auto
    finally show ?thesis .
  next
    case False
    then show ?thesis by (subst siftdown_loop.simps) (auto simp: Let_def)
  qed
qed

lemma mset_siftup_loop:
  assumes "siftup_loop h n pos = (h', pos')" "n = length h" "pos < length h"
  shows "mset (h'[pos' := x]) = mset (h[pos := x])"
  using assms
proof (induction h n pos arbitrary: h' pos' rule: siftup_loop.induct)
  case (1 h n pos)
  show ?case
  proof (cases "2 * pos + 1 < n")
    case True
    let ?c = "smaller_child h n pos"
    have c: "pos < ?c" "?c < n" using True by auto
    have step: "siftup_loop (h[pos := h ! ?c]) n ?c = (h', pos')"
      using "1.prems"(1) by (simp only: siftup_loop_step [OF True, of h])
    have "mset (h'[pos' := x]) = mset (h[pos := h ! ?c, ?c := x])"
      using "1.IH" [OF refl True refl refl step] c "1.prems"(2) by simp
    also have "\<dots> = mset (h[pos := x])"
      using c "1.prems"(2) by (intro mset_move_hole) auto
    finally show ?thesis .
  next
    case False
    with "1.prems" show ?thesis by (simp add: siftup_loop_stop)
  qed
qed

subsection \<open>Heap order\<close>

lemma hole_up_step:
  assumes inv: "hole_up g pos" and pos: "pos < length g" "0 < pos"
    and less: "g ! pos < g ! parent pos"
  shows "hole_up (g[pos := g ! parent pos, parent pos := g ! pos]) (parent pos)"
proof -
  let ?p = "parent pos"
  let ?h = "g[pos := g ! ?p, ?p := g ! pos]"
  have p: "?p < pos" "?p < length g" using pos by auto
  have A: "\<And>i. i < length g \<Longrightarrow> 0 < i \<Longrightarrow> i \<noteq> pos \<Longrightarrow> g ! parent i \<le> g ! i"
    using inv by (auto simp: hole_up_def)
  have B: "\<And>i. i < length g \<Longrightarrow> 0 < i \<Longrightarrow> parent i = pos \<Longrightarrow> g ! ?p \<le> g ! i"
    using inv pos by (auto simp: hole_up_def)
  have nth_h: "?h ! i = (if i = ?p then g ! pos else if i = pos then g ! ?p else g ! i)"
    if "i < length g" for i
    using that p by (auto simp: nth_list_update)
  have part1: "?h ! parent i \<le> ?h ! i" if i: "i < length g" "0 < i" "i \<noteq> ?p" for i
  proof (cases "i = pos")
    case True
    then show ?thesis using nth_h p pos less by simp
  next
    case False
    have pi: "parent i < length g" using i by auto
    consider "parent i = ?p" | "parent i = pos" | "parent i \<noteq> ?p" "parent i \<noteq> pos" by blast
    then show ?thesis
    proof cases
      case 1
      then show ?thesis using A [OF i(1,2) False] nth_h [OF i(1)] nth_h [OF pi] False i(3) less p
        by (auto simp: less_imp_le)
    next
      case 2
      then show ?thesis using B [OF i(1,2)] nth_h [OF i(1)] nth_h [OF pi] False i(3) p by simp
    next
      case 3
      then show ?thesis using A [OF i(1,2) False] nth_h [OF i(1)] nth_h [OF pi] False i(3) by simp
    qed
  qed
  have part2: "?h ! parent ?p \<le> ?h ! i"
    if i: "i < length g" "0 < i" "parent i = ?p" and p0: "0 < ?p" for i
  proof -
    have gp: "g ! parent ?p \<le> g ! ?p" using A [of ?p] p p0 by simp
    have pp: "parent ?p < ?p" using p0 by (rule parent_less)
    then have "parent ?p \<noteq> ?p" "parent ?p \<noteq> pos" "parent ?p < length g"
      using p by linarith+
    then have hp: "?h ! parent ?p = g ! parent ?p"
      using nth_h [of "parent ?p"] by simp
    show ?thesis
    proof (cases "i = pos")
      case True
      then show ?thesis using hp gp nth_h [OF i(1)] p by simp
    next
      case False
      then have "g ! ?p \<le> g ! i" using A [OF i(1,2)] i(3) by simp
      moreover have "i \<noteq> ?p" using i by auto
      ultimately show ?thesis using hp gp nth_h [OF i(1)] False by simp
    qed
  qed
  show ?thesis
    unfolding hole_up_def using part1 part2 by simp
qed

lemma hole_up_stop:
  assumes inv: "hole_up g pos" and pos: "pos < length g"
    and stop: "pos = 0 \<or> g ! parent pos \<le> g ! pos"
  shows "heap_inv g"
  using inv stop unfolding hole_up_def heap_inv_def by (metis not_gr0)

lemma heap_inv_siftdown_loop:
  "s = 0 \<Longrightarrow> pos < length h \<Longrightarrow> hole_up (h[pos := x]) pos \<Longrightarrow> heap_inv (siftdown_loop h s pos x)"
proof (induction h s pos x rule: siftdown_loop.induct)
  case (1 heap startpos pos newitem)
  let ?g = "heap[pos := newitem]"
  show ?case
  proof (cases "startpos < pos \<and> newitem < heap ! parent pos")
    case True
    have ne: "parent pos \<noteq> pos" using True parent_less [of pos] by auto
    have gp: "?g ! parent pos = heap ! parent pos" "?g ! pos = newitem"
      using ne "1.prems"(2) by auto
    have eq: "?g[pos := ?g ! parent pos, parent pos := ?g ! pos]
                = heap[pos := heap ! parent pos, parent pos := newitem]"
      using gp by simp
    have "hole_up (heap[pos := heap ! parent pos, parent pos := newitem]) (parent pos)"
      using hole_up_step [of ?g pos] "1.prems" True gp eq by simp
    then have "heap_inv (siftdown_loop (heap[pos := heap ! parent pos]) startpos (parent pos) newitem)"
      using True "1.prems" by (intro "1.IH") auto
    moreover have "siftdown_loop heap startpos pos newitem
                 = siftdown_loop (heap[pos := heap ! parent pos]) startpos (parent pos) newitem"
      using True by (subst siftdown_loop.simps) (simp add: Let_def)
    ultimately show ?thesis by simp
  next
    case False
    then have "siftdown_loop heap startpos pos newitem = ?g"
      by (subst siftdown_loop.simps) (auto simp: Let_def)
    moreover have "pos = 0 \<or> ?g ! parent pos \<le> ?g ! pos"
    proof (cases "pos = 0")
      case False
      then have "parent pos \<noteq> pos" using parent_less [of pos] by auto
      with False \<open>\<not> (startpos < pos \<and> newitem < heap ! parent pos)\<close> "1.prems"(1,2)
      show ?thesis by auto
    qed simp
    ultimately show ?thesis
      using hole_up_stop [of ?g pos] "1.prems" by simp
  qed
qed

lemma hole_down_step:
  assumes inv: "hole_down h pos" and c: "c < length h" "0 < c" "parent c = pos"
    and least: "\<And>i. i < length h \<Longrightarrow> 0 < i \<Longrightarrow> parent i = pos \<Longrightarrow> h ! c \<le> h ! i"
  shows "hole_down (h[pos := h ! c]) c"
proof -
  let ?h = "h[pos := h ! c]"
  have pc: "pos < c" "pos < length h" using c child_gt_parent by auto
  have A: "\<And>i. i < length h \<Longrightarrow> 0 < i \<Longrightarrow> i \<noteq> pos \<Longrightarrow> parent i \<noteq> pos \<Longrightarrow> h ! parent i \<le> h ! i"
    using inv by (auto simp: hole_down_def)
  have B: "\<And>i. 0 < pos \<Longrightarrow> i < length h \<Longrightarrow> 0 < i \<Longrightarrow> parent i = pos \<Longrightarrow> h ! parent pos \<le> h ! i"
    using inv by (auto simp: hole_down_def)
  have at_pos: "?h ! pos = h ! c" using pc by simp
  have off_pos: "?h ! j = h ! j" if "j \<noteq> pos" for j
    using that by simp
  have part1: "?h ! parent i \<le> ?h ! i"
    if i: "i < length h" "0 < i" "i \<noteq> c" "parent i \<noteq> c" for i
  proof (cases "i = pos")
    case True
    then have p0: "0 < pos" using i by simp
    then have "parent pos \<noteq> pos" using parent_less [of pos] by auto
    then have "?h ! parent pos = h ! parent pos" by (rule off_pos)
    moreover have "h ! parent pos \<le> h ! c" using B [OF p0 c] .
    ultimately show ?thesis using True at_pos by simp
  next
    case False
    show ?thesis
    proof (cases "parent i = pos")
      case True
      then have "?h ! parent i = h ! c" using at_pos by simp
      moreover have "h ! c \<le> h ! i" using least [OF i(1,2) True] .
      ultimately show ?thesis using off_pos [OF False] by simp
    next
      case pi: False
      have "h ! parent i \<le> h ! i" using A [OF i(1,2) False pi] .
      then show ?thesis using off_pos [OF False] off_pos [OF pi] by simp
    qed
  qed
  have part2: "?h ! parent c \<le> ?h ! i" if i: "i < length h" "0 < i" "parent i = c" for i
  proof -
    have "c < i" using i child_gt_parent by blast
    then have ipos: "i \<noteq> pos" using pc by simp
    have "parent i \<noteq> pos" using i(3) pc by simp
    then have "h ! c \<le> h ! i" using A [OF i(1,2) ipos] i(3) by simp
    then show ?thesis using c(3) at_pos off_pos [OF ipos] by simp
  qed
  have "\<forall>i < length ?h. 0 < i \<longrightarrow> i \<noteq> c \<longrightarrow> parent i \<noteq> c \<longrightarrow> ?h ! parent i \<le> ?h ! i"
    using part1 by simp
  moreover have "0 < c \<longrightarrow> (\<forall>i < length ?h. 0 < i \<longrightarrow> parent i = c \<longrightarrow> ?h ! parent c \<le> ?h ! i)"
    using part2 by simp
  ultimately show ?thesis unfolding hole_down_def by (rule conjI)
qed

lemma smaller_child_least:
  assumes "2 * pos + 1 < length h" "i < length h" "0 < i" "parent i = pos"
  shows "h ! smaller_child h (length h) pos \<le> h ! i"
proof -
  have "i = 2 * pos + 1 \<or> i = 2 * pos + 1 + 1"
    using assms(3,4) parent_eq_iff by auto
  then show ?thesis
    using assms(2) by (cases "2 * pos + 1 + 1 < length h") auto
qed

lemma hole_down_leaf:
  assumes "hole_down h k" "k < length h" "length h \<le> 2 * k + 1"
  shows "hole_up (h[k := x]) k"
proof -
  have nochild: "parent i \<noteq> k" if "i < length h" "0 < i" for i
  proof
    assume "parent i = k"
    then have "2 * k + 1 \<le> i" using that(2) parent_eq_iff by auto
    with that(1) assms(3) show False by simp
  qed
  have "h[k := x] ! parent i \<le> h[k := x] ! i" if "i < length h" "0 < i" "i \<noteq> k" for i
    using assms(1) nochild [OF that(1,2)] that unfolding hole_down_def by simp
  then show ?thesis unfolding hole_up_def using nochild by simp
qed

lemma hole_down_siftup_loop:
  assumes "siftup_loop h n pos = (h', pos')" "n = length h" "pos < length h" "hole_down h pos"
  shows "hole_down h' pos'"
  using assms
proof (induction h n pos arbitrary: h' pos' rule: siftup_loop.induct)
  case (1 h n pos)
  show ?case
  proof (cases "2 * pos + 1 < n")
    case True
    let ?c = "smaller_child h n pos"
    have c: "?c < length h" "0 < ?c" "parent ?c = pos"
      using True "1.prems"(2) by auto
    have step: "siftup_loop (h[pos := h ! ?c]) n ?c = (h', pos')"
      using "1.prems"(1) by (simp only: siftup_loop_step [OF True, of h])
    have least: "h ! ?c \<le> h ! i" if "i < length h" "0 < i" "parent i = pos" for i
      using smaller_child_least [of pos h i] True that "1.prems"(2) by simp
    have "hole_down (h[pos := h ! ?c]) ?c"
      using hole_down_step [OF "1.prems"(4) c least] by simp
    then show ?thesis
      using "1.IH" [OF refl True refl refl step] c(1) "1.prems"(2) by simp
  next
    case False
    with "1.prems" show ?thesis by (simp add: siftup_loop_stop)
  qed
qed

text \<open>\<open>_siftup(heap, 0)\<close> repairs a heap whose root alone may be out of place.\<close>

lemma heap_inv_siftup:
  assumes "hole_down h 0" "0 < length h"
  shows "heap_inv (siftup h 0)"
proof -
  obtain h' p' where loop: "siftup_loop h (length h) 0 = (h', p')" by fastforce
  have shape: "length h' = length h" "p' < length h" "length h \<le> 2 * p' + 1"
    using siftup_loop_shape [OF loop refl assms(2)] by auto
  have "hole_up (h'[p' := h ! 0]) p'"
    using hole_down_leaf [OF hole_down_siftup_loop [OF loop refl assms(2,1)]] shape by simp
  then have "heap_inv (siftdown_loop (h'[p' := h ! 0]) 0 p' (h ! 0))"
    using heap_inv_siftdown_loop [of 0 p' "h'[p' := h ! 0]" "h ! 0"] shape by simp
  then show ?thesis
    using loop shape by (simp add: siftup_def siftdown_def Let_def)
qed

lemma mset_siftup:
  assumes "pos < length h"
  shows "mset (siftup h pos) = mset h"
proof -
  obtain h' p' where loop: "siftup_loop h (length h) pos = (h', p')" by fastforce
  have shape: "length h' = length h" "p' < length h"
    using siftup_loop_shape [OF loop refl assms] by auto
  have "mset (siftup h pos) = mset ((h'[p' := h ! pos])[p' := h ! pos])"
    using loop shape by (simp add: siftup_def siftdown_def Let_def mset_siftdown_loop)
  also have "\<dots> = mset (h[pos := h ! pos])"
    using mset_siftup_loop [OF loop refl assms] by simp
  finally show ?thesis by simp
qed

lemma heap_inv_butlast: "heap_inv h \<Longrightarrow> heap_inv (butlast h)"
  by (auto simp: heap_inv_def nth_butlast)

lemma heap_inv_root_hole: "heap_inv h \<Longrightarrow> hole_down (h[0 := x]) 0"
  by (auto simp: heap_inv_def hole_down_def)

lemma heap_inv_least: "heap_inv h \<Longrightarrow> i < length h \<Longrightarrow> h ! 0 \<le> h ! i"
proof (induction i rule: less_induct)
  case (less i)
  show ?case
  proof (cases "i = 0")
    case False
    then have "h ! 0 \<le> h ! parent i" using less by simp
    also have "\<dots> \<le> h ! i" using less.prems False by (simp add: heap_inv_def)
    finally show ?thesis .
  qed simp
qed

subsection \<open>The contract of heappush and heappop\<close>

lemma mset_heappush [simp]: "mset (heappush h x) = add_mset x (mset h)"
  by (simp add: heappush_def siftdown_def mset_siftdown_loop)

lemma heap_inv_heappush:
  assumes "heap_inv h"
  shows "heap_inv (heappush h x)"
proof -
  let ?g = "h @ [x]"
  have "hole_up (?g[length h := x]) (length h)"
    using assms by (auto simp: hole_up_def heap_inv_def nth_append)
  then show ?thesis
    using heap_inv_siftdown_loop [of 0 "length h" ?g x]
    by (simp add: heappush_def siftdown_def)
qed

lemma heappop_Some_iff:
  "heappop h = Some (x, h') \<longleftrightarrow>
     h \<noteq> [] \<and> x = h ! 0 \<and>
     h' = (if butlast h = [] then [] else siftup ((butlast h)[0 := last h]) 0)"
  by (cases h rule: rev_cases) (auto simp: heappop_def Let_def nth_append)

lemma mset_heappop:
  assumes "heappop h = Some (x, h')"
  shows "mset h = add_mset x (mset h')"
proof -
  have "h \<noteq> [] \<and> x = h ! 0" using assms unfolding heappop_Some_iff by simp
  then have ne: "h \<noteq> []" and x: "x = h ! 0" by simp_all
  show ?thesis
  proof (cases "butlast h = []")
    case True
    then obtain y where "h = [y]" using ne by (cases h rule: rev_cases) auto
    then show ?thesis using assms by (simp add: heappop_def)
  next
    case False
    then have h': "h' = siftup ((butlast h)[0 := last h]) 0" using assms heappop_Some_iff [of h x h'] by simp
    have "Suc 0 < length h" using False by (cases h rule: rev_cases) auto
    then have "mset h' = mset ((butlast h)[0 := last h])"
      by (simp add: h' mset_siftup)
    also have "\<dots> = add_mset (last h) (mset (butlast h) - {#butlast h ! 0#})"
      using \<open>Suc 0 < length h\<close> by (simp add: mset_update)
    finally have "add_mset (butlast h ! 0) (mset h') = add_mset (last h) (mset (butlast h))"
      using \<open>Suc 0 < length h\<close> by (simp add: insert_DiffM)
    moreover have "butlast h ! 0 = x" using x \<open>Suc 0 < length h\<close> by (simp add: nth_butlast)
    ultimately show ?thesis using ne by (simp add: mset_butlast_last)
  qed
qed

lemma heap_inv_heappop:
  assumes "heap_inv h" "heappop h = Some (x, h')"
  shows "heap_inv h'"
proof (cases "butlast h = []")
  case True
  then have "h' = []" using assms(2) heappop_Some_iff [of h x h'] by simp
  then show ?thesis by (simp add: heap_inv_def)
next
  case False
  then have h': "h' = siftup ((butlast h)[0 := last h]) 0" using assms(2) heappop_Some_iff [of h x h'] by simp
  have hd: "hole_down ((butlast h)[0 := last h]) 0"
    using heap_inv_root_hole [OF heap_inv_butlast [OF assms(1)]] .
  have len: "0 < length ((butlast h)[0 := last h])"
    using False by (cases h rule: rev_cases) auto
  show ?thesis using heap_inv_siftup [OF hd len] h' by simp
qed

lemma heappop_least:
  assumes "heap_inv h" "heappop h = Some (x, h')" "y \<in> set h"
  shows "x \<le> y"
proof -
  from assms(3) obtain i where "i < length h" "y = h ! i" by (auto simp: in_set_conv_nth)
  moreover have "x = h ! 0" using assms(2) heappop_Some_iff [of h x h'] by simp
  ultimately show ?thesis using heap_inv_least [OF assms(1)] by simp
qed

lemma set_heappush [simp]: "set (heappush h x) = insert x (set h)"
  by (metis mset_heappush set_mset_add_mset_insert set_mset_mset)

lemma set_heappop: "heappop h = Some (x, h') \<Longrightarrow> set h = insert x (set h')"
  by (metis mset_heappop set_mset_add_mset_insert set_mset_mset)

subsection \<open>Refinement of the abstract priority queue\<close>

lemma heappop_least_Min:
  assumes "heap_inv h" "heappop h = Some (x, h')"
  shows "x = Min_mset (mset h)"
proof -
  have "h \<noteq> []" "x = h ! 0" using assms(2) unfolding heappop_Some_iff by simp_all
  then have "x \<in> set h" by simp
  with heappop_least [OF assms] show ?thesis
    by (intro Min_eqI [symmetric]) auto
qed

text \<open>
  Refinement: on a list satisfying the heap invariant, \<open>heappop\<close> behaves
  as removal of the least element from the multiset of entries (returning
  \<open>None\<close>, Python's \<open>IndexError\<close>, exactly on the empty heap), and the popped
  remainder again satisfies the invariant.
\<close>

theorem heappop_refines:
  assumes "heap_inv h"
  shows "map_option (\<lambda>(x, h'). (x, mset h')) (heappop h) = pq_pop_min (mset h)
         \<and> (\<forall>x h'. heappop h = Some (x, h') \<longrightarrow> heap_inv h')"
proof (cases "heappop h")
  case None
  then show ?thesis by (simp add: pq_pop_min_def)
next
  case (Some r)
  obtain x h' where r: "r = (x, h')" by fastforce
  have pop: "heappop h = Some (x, h')" using Some r by simp
  have "h \<noteq> []" using pop by (auto simp: heappop_def)
  moreover have "x = Min_mset (mset h)" by (rule heappop_least_Min [OF assms pop])
  moreover have "mset h' = mset h - {#x#}" using mset_heappop [OF pop] by simp
  ultimately show ?thesis
    using pop heap_inv_heappop [OF assms] by (simp add: pq_pop_min_def)
qed

text \<open>
  Refinement: \<open>heappush\<close> inserts its item into the multiset of entries and
  keeps the heap invariant.
\<close>

theorem heappush_refines:
  assumes "heap_inv h"
  shows "mset (heappush h x) = pq_insert x (mset h) \<and> heap_inv (heappush h x)"
  using heap_inv_heappush [OF assms] by (simp add: pq_insert_def)

end
