(* ===== verification/Graph.thy ===== *)
theory Graph
  imports Prelude
begin

text \<open>
  The engine's input and the vocabulary of its specification. A graph is the
  Python dict of dicts \<open>{node: {neighbor: weight}}\<close>, kept as an association
  list of association lists so that the iteration order of \<open>graph\<close> and of
  \<open>graph[node].items()\<close> is the one the code sees. Weights are Python
  integers (\<open>int\<close>). The distance table holds integers or
  \<open>float('inf')\<close>; the type \<open>ext\<close> is that value set with Python's order on
  it. Paths are node lists, costed hop by hop with \<open>graph[u][v]\<close>.
\<close>

subsection \<open>Graphs and distances\<close>

type_synonym 'n graph = "('n \<times> ('n \<times> int) list) list"

text \<open>An integer distance or \<open>float('inf')\<close>.\<close>

datatype ext = Fin int | Inf

instantiation ext :: linorder
begin

fun less_eq_ext :: "ext \<Rightarrow> ext \<Rightarrow> bool" where
  "less_eq_ext (Fin a) (Fin b) = (a \<le> b)"
| "less_eq_ext _ Inf = True"
| "less_eq_ext Inf (Fin _) = False"

fun less_ext :: "ext \<Rightarrow> ext \<Rightarrow> bool" where
  "less_ext (Fin a) (Fin b) = (a < b)"
| "less_ext (Fin _) Inf = True"
| "less_ext Inf _ = False"

instance
proof
  fix x y z :: ext
  show "(x < y) = (x \<le> y \<and> \<not> y \<le> x)" by (cases x; cases y) auto
  show "x \<le> x" by (cases x) auto
  show "x \<le> y \<Longrightarrow> y \<le> z \<Longrightarrow> x \<le> z" by (cases x; cases y; cases z) auto
  show "x \<le> y \<Longrightarrow> y \<le> x \<Longrightarrow> x = y" by (cases x; cases y) auto
  show "x \<le> y \<or> y \<le> x" by (cases x; cases y) auto
qed

end

text \<open>\<open>node in graph\<close>: the keys of the outer dict.\<close>

definition graph_nodes :: "'n graph \<Rightarrow> 'n set" where
  "graph_nodes g = set (map fst g)"

text \<open>\<open>graph[u][v]\<close>, when both keys are present.\<close>

definition edge_weight :: "'n graph \<Rightarrow> 'n \<Rightarrow> 'n \<Rightarrow> int option" where
  "edge_weight g u v = (case map_of g u of None \<Rightarrow> None | Some adj \<Rightarrow> map_of adj v)"

subsection \<open>What the specification speaks of\<close>

text \<open>
  A graph that a Python dict of dicts can be: no key twice, in the outer dict or
  in any inner one.
\<close>

definition wf_graph :: "'n graph \<Rightarrow> bool" where
  "wf_graph g \<longleftrightarrow> distinct (map fst g) \<and> (\<forall>(u, adj) \<in> set g. distinct (map fst adj))"

text \<open>The precondition of the contract: no negative edge weight.\<close>

definition nonneg_weights :: "'n graph \<Rightarrow> bool" where
  "nonneg_weights g \<longleftrightarrow> (\<forall>(u, adj) \<in> set g. \<forall>(v, w) \<in> set adj. 0 \<le> w)"

text \<open>Every neighbour that some node names is itself a key of the graph.\<close>

definition closed_graph :: "'n graph \<Rightarrow> bool" where
  "closed_graph g \<longleftrightarrow> (\<forall>(u, adj) \<in> set g. \<forall>(v, w) \<in> set adj. v \<in> graph_nodes g)"

text \<open>The cost of a node sequence, \<open>None\<close> when two consecutive nodes are not an edge.\<close>

fun path_cost :: "'n graph \<Rightarrow> 'n list \<Rightarrow> int option" where
  "path_cost g [] = None"
| "path_cost g [v] = Some 0"
| "path_cost g (u # v # vs) =
     (case edge_weight g u v of
        None \<Rightarrow> None
      | Some w \<Rightarrow> map_option ((+) w) (path_cost g (v # vs)))"

definition is_path :: "'n graph \<Rightarrow> 'n \<Rightarrow> 'n list \<Rightarrow> 'n \<Rightarrow> int \<Rightarrow> bool" where
  "is_path g s p t c \<longleftrightarrow> p \<noteq> [] \<and> hd p = s \<and> last p = t \<and> path_cost g p = Some c"

subsection \<open>Paths: costs and the edge that leaves a set\<close>

lemma edge_weight_SomeD:
  "edge_weight g u v = Some w \<Longrightarrow> \<exists>items. map_of g u = Some items \<and> (v, w) \<in> set items"
  by (auto simp: edge_weight_def split: option.splits dest: map_of_SomeD)

lemma edge_weight_SomeI:
  assumes "wf_graph g" "map_of g u = Some items" "(v, w) \<in> set items"
  shows "edge_weight g u v = Some w"
proof -
  have "(u, items) \<in> set g" using assms(2) by (rule map_of_SomeD)
  then have "distinct (map fst items)" using assms(1) by (auto simp: wf_graph_def)
  then show ?thesis using assms(2,3) by (simp add: edge_weight_def)
qed

lemma nonneg_weights_edge:
  "nonneg_weights g \<Longrightarrow> edge_weight g u v = Some w \<Longrightarrow> 0 \<le> w"
  by (auto simp: nonneg_weights_def dest!: edge_weight_SomeD map_of_SomeD)

lemma path_cost_nonneg:
  "nonneg_weights g \<Longrightarrow> path_cost g p = Some c \<Longrightarrow> 0 \<le> c"
proof (induction g p arbitrary: c rule: path_cost.induct)
  case (3 g u v vs)
  then show ?case by (auto split: option.splits dest: nonneg_weights_edge)
qed auto

lemma path_cost_snoc:
  "p \<noteq> [] \<Longrightarrow> path_cost g p = Some c \<Longrightarrow> edge_weight g (last p) x = Some w \<Longrightarrow>
   path_cost g (p @ [x]) = Some (c + w)"
proof (induction g p arbitrary: c rule: path_cost.induct)
  case (2 g v)
  then show ?case by simp
next
  case (3 g u v vs)
  then show ?case by (auto split: option.splits)
qed simp

lemma is_path_exit:
  "is_path g s p t c \<Longrightarrow> s \<in> V \<Longrightarrow> t \<notin> V \<Longrightarrow>
   \<exists>u v w c1 c2 p1 p2. is_path g s p1 u c1 \<and> u \<in> V \<and> v \<notin> V \<and> edge_weight g u v = Some w
      \<and> is_path g v p2 t c2 \<and> c = c1 + w + c2"
proof (induction g p arbitrary: s c rule: path_cost.induct)
  case (1 g)
  then show ?case by (simp add: is_path_def)
next
  case (2 g x)
  then show ?case by (auto simp: is_path_def)
next
  case (3 g x y zs)
  from "3.prems"(1) have ip: "hd (x # y # zs) = s" "last (x # y # zs) = t"
    "path_cost g (x # y # zs) = Some c"
    by (simp_all only: is_path_def)
  then have sx: "s = x" and t: "last (y # zs) = t" by simp_all
  note pc = ip(3)
  then obtain w0 where w0: "edge_weight g x y = Some w0"
    by (cases "edge_weight g x y") auto
  with pc obtain cr where cr: "path_cost g (y # zs) = Some cr" and c: "c = w0 + cr"
    by (cases "path_cost g (y # zs)") auto
  show ?case
  proof (cases "y \<in> V")
    case False
    have "is_path g s [x] x 0" "is_path g y (y # zs) t cr"
      using sx cr t by (simp_all add: is_path_def)
    then show ?thesis using False w0 c "3.prems"(2) sx by fastforce
  next
    case True
    have "is_path g y (y # zs) t cr" using cr t by (simp add: is_path_def)
    then obtain u v w c1 c2 p1 p2 where IH: "is_path g y p1 u c1" "u \<in> V" "v \<notin> V"
      "edge_weight g u v = Some w" "is_path g v p2 t c2" "cr = c1 + w + c2"
      using "3.IH" [OF w0] True "3.prems"(3) by blast
    then obtain p1' where p1: "p1 = y # p1'" by (cases p1) (auto simp: is_path_def)
    have "is_path g s (x # p1) u (w0 + c1)"
      using IH(1) p1 w0 sx by (auto simp: is_path_def)
    then show ?thesis using IH c by (intro exI [of _ u] exI [of _ v]) fastforce
  qed
qed

end
