(* ===== verification/Relaxation.thy ===== *)
theory Relaxation
  imports Heapq Graph
begin

text \<open>
  The state of \<open>dijkstra(graph, start, end)\<close> in \<open>src/dijkstra.py\<close> and one
  iteration of its \<open>while pq:\<close> loop. The four local variables \<open>pq\<close>,
  \<open>distances\<close>, \<open>predecessors\<close> and \<open>visited\<close> form a record; Python dicts
  are maps (a missing key is \<open>None\<close>, and reading it raises \<open>KeyError\<close>);
  \<open>predecessors\<close> maps a node to \<open>Some None\<close> for the Python value
  \<open>None\<close>. The frontier is the \<open>heapq\<close> list of \<open>(distance, node)\<close>
  tuples, ordered lexicographically as Python orders tuples.
\<close>

record 'n state =
  pq :: "(int \<times> 'n) list"
  distances :: "'n \<rightharpoonup> ext"
  predecessors :: "'n \<rightharpoonup> 'n option"
  visited :: "'n set"

text \<open>The exception the function can raise: a dict read with a missing key.\<close>

datatype 'n error = KeyError 'n

text \<open>How the loop is left: the early \<open>return\<close> at the target, an empty frontier, or an exception.\<close>

datatype 'n loop_exit = Found int 'n "'n state" | Exhausted | Raised "'n error"

text \<open>Lines 21--31: the initial state.\<close>

definition init_state :: "'n graph \<Rightarrow> 'n \<Rightarrow> 'n state" where
  "init_state graph start =
     \<lparr>pq = [(0, start)],
      distances = (map_of (map (\<lambda>(node, _). (node, Inf)) graph))(start \<mapsto> Fin 0),
      predecessors = map_of (map (\<lambda>(node, _). (node, None)) graph),
      visited = {}\<rparr>"

text \<open>
  Lines 50--60: the relaxation loop over \<open>graph[current_node].items()\<close>.
  \<open>distances[neighbor]\<close> raises \<open>KeyError\<close> for a neighbour that is not a
  key of \<open>distances\<close>.
\<close>

fun relax :: "'n::linorder \<Rightarrow> int \<Rightarrow> ('n \<times> int) list \<Rightarrow> 'n state \<Rightarrow> 'n error + 'n state" where
  "relax current_node current_distance [] st = Inr st"
| "relax current_node current_distance ((neighbor, weight) # items) st =
     (if neighbor \<in> visited st then relax current_node current_distance items st
      else
        (let new_distance = current_distance + weight in
         case distances st neighbor of
           None \<Rightarrow> Inl (KeyError neighbor)
         | Some d \<Rightarrow>
             if Fin new_distance < d then
               relax current_node current_distance items
                 (st\<lparr>distances := (distances st)(neighbor \<mapsto> Fin new_distance),
                     predecessors := (predecessors st)(neighbor \<mapsto> Some current_node),
                     pq := heappush (pq st) (new_distance, neighbor)\<rparr>)
             else relax current_node current_distance items st))"

text \<open>
  Lines 33--60: one iteration of \<open>while pq:\<close>. The loop continues with a new
  state (\<open>Inl\<close>) or is left (\<open>Inr\<close>). \<open>heappop\<close> answers \<open>None\<close> exactly
  when \<open>pq\<close> is empty, which is the loop's exit test.
\<close>

definition step :: "'n::linorder graph \<Rightarrow> 'n \<Rightarrow> 'n state \<Rightarrow> 'n state + 'n loop_exit" where
  "step graph target st =
     (case heappop (pq st) of
        None \<Rightarrow> Inr Exhausted
      | Some ((current_distance, current_node), pq') \<Rightarrow>
          (let st1 = st\<lparr>pq := pq'\<rparr> in
           if current_node = target then Inr (Found current_distance current_node st1)
           else if current_node \<in> visited st1 then Inl st1
           else
             (let st2 = st1\<lparr>visited := insert current_node (visited st1)\<rparr> in
              case map_of graph current_node of
                None \<Rightarrow> Inl st2
              | Some items \<Rightarrow>
                  (case relax current_node current_distance items st2 of
                     Inl err \<Rightarrow> Inr (Raised err)
                   | Inr st3 \<Rightarrow> Inl st3))))"

text \<open>One update of the relaxation loop (lines 58--60).\<close>

definition relax_upd :: "'n::linorder state \<Rightarrow> 'n \<Rightarrow> 'n \<Rightarrow> int \<Rightarrow> 'n state" where
  "relax_upd st u v nd =
     st\<lparr>distances := (distances st)(v \<mapsto> Fin nd),
        predecessors := (predecessors st)(v \<mapsto> Some u),
        pq := heappush (pq st) (nd, v)\<rparr>"
subsection \<open>A reference for the relaxation loop\<close>

text \<open>
  The loop of lines 50--60 mutates the tables one neighbour at a time. When the
  neighbours are distinct (as the keys of a dict are), its effect is the
  pointwise one below: it raises \<open>KeyError\<close> for the first unvisited
  neighbour without a \<open>distances\<close> entry; otherwise every unvisited
  neighbour whose candidate is strictly smaller gets the candidate as distance,
  \<open>current_node\<close> as predecessor, and one new frontier entry.
\<close>

definition improves :: "'n state \<Rightarrow> int \<Rightarrow> 'n \<times> int \<Rightarrow> bool" where
  "improves st d vw =
     (case vw of (v, w) \<Rightarrow> v \<notin> visited st \<and>
        (case distances st v of None \<Rightarrow> False | Some dv \<Rightarrow> Fin (d + w) < dv))"

definition relax_spec ::
  "'n \<Rightarrow> int \<Rightarrow> ('n \<times> int) list \<Rightarrow> 'n state
   \<Rightarrow> 'n error + ('n \<rightharpoonup> ext) \<times> ('n \<rightharpoonup> 'n option) \<times> (int \<times> 'n) multiset" where
  "relax_spec u d items st =
     (case find (\<lambda>(v, w). v \<notin> visited st \<and> distances st v = None) items of
        Some (v, w) \<Rightarrow> Inl (KeyError v)
      | None \<Rightarrow>
          (let imp = filter (improves st d) items in
           Inr (distances st ++ map_of (map (\<lambda>(v, w). (v, Fin (d + w))) imp),
                predecessors st ++ map_of (map (\<lambda>(v, w). (v, Some u)) imp),
                mset (pq st) + mset (map (\<lambda>(v, w). (d + w, v)) imp))))"

subsection \<open>Frame and progress of one iteration\<close>

lemma relax_upd_fields [simp]:
  "visited (relax_upd st u v nd) = visited st"
  "distances (relax_upd st u v nd) = (distances st)(v \<mapsto> Fin nd)"
  "predecessors (relax_upd st u v nd) = (predecessors st)(v \<mapsto> Some u)"
  "pq (relax_upd st u v nd) = heappush (pq st) (nd, v)"
  by (simp_all add: relax_upd_def)

text \<open>The dict comprehensions of lines 25 and 29.\<close>

lemma map_of_map_const:
  "map_of (map (\<lambda>(k, _). (k, c)) g) x = (if x \<in> graph_nodes g then Some c else None)"
  by (induction g) (auto simp: graph_nodes_def)

lemma relax_KeyError:
  assumes "(v, w) \<in> set items" "v \<notin> visited st" "distances st v = None"
  shows "\<exists>v'. relax u d items st = Inl (KeyError v')"
  using assms
proof (induction u d items st rule: relax.induct)
  case (1 u d st)
  then show ?case by simp
next
  case (2 u d v0 w0 items st)
  show ?case
  proof (cases "v0 = v")
    case True
    then show ?thesis using "2.prems" by simp
  next
    case False
    then have "(v, w) \<in> set items" using "2.prems"(1) by simp
    then show ?thesis
      using "2.IH" "2.prems"(2,3) False by (auto simp: Let_def split: option.splits)
  qed
qed

lemma relax_visited:
  "relax u d items st = Inr st' \<Longrightarrow> visited st' = visited st"
  by (induction u d items st rule: relax.induct)
     (auto simp: Let_def split: if_splits option.splits)

lemma graph_nodes_map_of: "map_of g x = None \<longleftrightarrow> x \<notin> graph_nodes g"
  by (simp add: graph_nodes_def map_of_eq_None_iff)

text \<open>
  Each iteration that does not leave the loop either finalises a new node of the
  graph or shrinks the frontier without finalising any node of the graph.
\<close>

lemma step_progress:
  assumes "step g t st = Inl st'"
  shows "card (graph_nodes g - visited st') < card (graph_nodes g - visited st)
         \<or> (graph_nodes g - visited st' = graph_nodes g - visited st
            \<and> length (pq st') < length (pq st))"
proof -
  obtain cd cn pq' where pop: "heappop (pq st) = Some ((cd, cn), pq')"
    using assms by (auto simp: step_def split: option.splits)
  have len: "length (pq st) = Suc (length pq')" using length_heappop [OF pop] .
  have fin: "finite (graph_nodes g)" by (simp add: graph_nodes_def)
  consider (seen) "cn \<noteq> t" "cn \<in> visited st" "st' = st\<lparr>pq := pq'\<rparr>"
    | (outside) "cn \<noteq> t" "cn \<notin> visited st" "map_of g cn = None"
        "st' = st\<lparr>pq := pq', visited := insert cn (visited st)\<rparr>"
    | (expanded) items where "cn \<noteq> t" "cn \<notin> visited st" "map_of g cn = Some items"
        "visited st' = insert cn (visited st)"
    using assms pop
    by (auto simp: step_def Let_def dest: relax_visited split: if_splits option.splits sum.splits)
  then show ?thesis
  proof cases
    case seen
    then show ?thesis using len by simp
  next
    case outside
    then have "cn \<notin> graph_nodes g" using graph_nodes_map_of [of g cn] by auto
    then show ?thesis using outside len by auto
  next
    case expanded
    then have "cn \<in> graph_nodes g" using graph_nodes_map_of [of g cn] by auto
    then have "graph_nodes g - visited st' \<subset> graph_nodes g - visited st"
      using expanded by auto
    then show ?thesis using fin by (simp add: psubset_card_mono)
  qed
qed

subsection \<open>The relaxation loop against its reference\<close>

lemma relax_spec_upd:
  assumes "v \<notin> fst ` set items" "v \<notin> visited st"
  shows "relax_spec u d items (relax_upd st u v nd)
         = map_sum id (\<lambda>(ds, ps, q). ((ds(v \<mapsto> Fin nd)), ps(v \<mapsto> Some u), add_mset (nd, v) q))
             (relax_spec u d items st)"
proof -
  let ?st = "relax_upd st u v nd"
  have out: "\<And>x w. (x, w) \<in> set items \<Longrightarrow> x \<noteq> v" using assms(1) by force
  have f: "find (\<lambda>(x, w). x \<notin> visited ?st \<and> distances ?st x = None) items
         = find (\<lambda>(x, w). x \<notin> visited st \<and> distances st x = None) items"
    by (rule find_cong) (auto dest: out)
  have i: "filter (improves ?st d) items = filter (improves st d) items"
    by (rule filter_cong) (auto simp: improves_def dest: out)
  have dom: "v \<notin> dom (map_of (map (\<lambda>(x, w). (x, c x w)) (filter (improves st d) items)))" for c
    by (auto simp: dom_map_of_conv_image_fst dest: out)
  show ?thesis
    unfolding relax_spec_def f i
    using dom [of "\<lambda>x w. Fin (d + w)"] dom [of "\<lambda>x w. Some u"]
    by (auto simp: Let_def map_add_upd_left split: option.splits)
qed

lemma relax_spec_Cons_skip:
  assumes "\<not> improves st d (v, w)" "distances st v \<noteq> None \<or> v \<in> visited st"
  shows "relax_spec u d ((v, w) # items) st = relax_spec u d items st"
proof -
  have i: "filter (improves st d) ((v, w) # items) = filter (improves st d) items" using assms(1) by simp
  have f: "find (\<lambda>(x, w). x \<notin> visited st \<and> distances st x = None) ((v, w) # items)
               = find (\<lambda>(x, w). x \<notin> visited st \<and> distances st x = None) items"
    using assms(2) by auto
  show ?thesis unfolding relax_spec_def by (simp only: i f)
qed

lemma relax_spec_Cons_improves:
  assumes "improves st d (v, w)"
  shows "relax_spec u d ((v, w) # items) st
         = map_sum id (\<lambda>(ds, ps, q). ((ds(v \<mapsto> Fin (d + w))), ps(v \<mapsto> Some u), add_mset (d + w, v) q))
             (relax_spec u d items st)"
  using assms by (auto simp: relax_spec_def improves_def Let_def split: option.splits)

lemma relax_spec_Cons_upd:
  assumes "v \<notin> fst ` set items" "v \<notin> visited st" "distances st v = Some dv" "Fin (d + w) < dv"
  shows "relax_spec u d ((v, w) # items) st = relax_spec u d items (relax_upd st u v (d + w))"
proof -
  have "improves st d (v, w)" using assms(2-4) by (simp add: improves_def)
  then show ?thesis using relax_spec_upd [OF assms(1,2)] relax_spec_Cons_improves by simp
qed

text \<open>
  C13. Equivalence of the relaxation loop with its pointwise reference: on a
  node's neighbour list without repeated keys (a dict's \<open>items()\<close>), the
  loop of lines 50--60 raises \<open>KeyError\<close> exactly as \<open>relax_spec\<close> does,
  and otherwise leaves the tables \<open>distances\<close> and \<open>predecessors\<close> and
  the multiset of frontier entries that \<open>relax_spec\<close> gives.
\<close>

theorem relax_refines_spec:
  assumes "distinct (map fst items)"
  shows "map_sum id (\<lambda>st'. (distances st', predecessors st', mset (pq st'))) (relax u d items st)
         = relax_spec u d items st"
  using assms
proof (induction u d items st rule: relax.induct)
  case (1 u d st)
  then show ?case by (simp add: relax_spec_def)
next
  case (2 u d v w items st)
  have v: "v \<notin> fst ` set items" and dis: "distinct (map fst items)" using "2.prems" by auto
  consider (seen) "v \<in> visited st" | (missing) "v \<notin> visited st" "distances st v = None"
    | (lower) dv where "v \<notin> visited st" "distances st v = Some dv" "Fin (d + w) < dv"
    | (keep) dv where "v \<notin> visited st" "distances st v = Some dv" "\<not> Fin (d + w) < dv"
    by (cases "distances st v") auto
  then show ?case
  proof cases
    case seen
    then show ?thesis using "2.IH"(1) [OF seen dis] relax_spec_Cons_skip [of st d v w]
      by (simp add: improves_def)
  next
    case missing
    then show ?thesis by (simp add: relax_spec_def)
  next
    case (lower dv)
    have r: "relax u d ((v, w) # items) st = relax u d items (relax_upd st u v (d + w))"
      using lower by (simp add: Let_def relax_upd_def)
    show ?thesis
      unfolding r relax_spec_Cons_upd [OF v lower]
      by (rule "2.IH"(2) [OF lower(1) refl lower(2,3) dis, folded relax_upd_def])
  next
    case (keep dv)
    then have "\<not> improves st d (v, w)" by (simp add: improves_def)
    then show ?thesis
      using "2.IH"(3) [OF keep(1) refl keep(2,3) dis] relax_spec_Cons_skip [of st d v w] keep by simp
  qed
qed

theorem relax_refines_spec_witness:
  "distinct (map fst [(1::nat, 1::int), (2, 2)])
   \<and> map_sum id (\<lambda>st'. (distances st', predecessors st', mset (pq st')))
       (relax (0::nat) 0 [(1, 1), (2, 2)] (init_state [(0, [(1, 1), (2, 2)]), (1, []), (2, [])] 0))
     = relax_spec 0 0 [(1, 1), (2, 2)] (init_state [(0, [(1, 1), (2, 2)]), (1, []), (2, [])] 0)"
proof -
  have h: "distinct (map fst [(1::nat, 1::int), (2, 2)])" by simp
  show ?thesis by (rule conjI [OF h relax_refines_spec [OF h]])
qed

end
