(* ===== verification/Dijkstra.thy ===== *)
theory Dijkstra
  imports Relaxation
begin

text \<open>
  The function \<open>dijkstra(graph, start, end)\<close> of \<open>src/dijkstra.py\<close>: the
  \<open>while pq:\<close> loop run to its exit, the reconstruction of the path by
  following \<open>predecessors\<close> back from the target, and the returned tuple.
  The Python parameter \<open>end\<close> is called \<open>target\<close> here (\<open>end\<close> is an
  Isabelle keyword).
\<close>

text \<open>
  Lines 33--62: the loop. It always stops: every iteration finalises a new node
  of the graph or shrinks the frontier (\<open>step_progress\<close>).
\<close>

function run :: "'n::linorder graph \<Rightarrow> 'n \<Rightarrow> 'n state \<Rightarrow> 'n loop_exit" where
  "run graph target st =
     (case step graph target st of
        Inl st' \<Rightarrow> run graph target st'
      | Inr x \<Rightarrow> x)"
  by pat_completeness auto
termination
  by (relation "measures [\<lambda>(g, t, st). card (graph_nodes g - visited st),
                          \<lambda>(g, t, st). length (pq st)]")
     (auto dest: step_progress)

declare run.simps [simp del]

text \<open>
  Lines 38--41: \<open>while current_node is not None: path.append(current_node);
  current_node = predecessors[current_node]\<close>. Nothing in the code bounds the
  number of rounds, so the loop is a partial function: \<open>None\<close> is "does not
  return", \<open>Some (Inl _)\<close> a \<open>KeyError\<close>.
\<close>

partial_function (option) build_path ::
  "('n \<rightharpoonup> 'n option) \<Rightarrow> 'n option \<Rightarrow> 'n list \<Rightarrow> ('n error + 'n list) option"
where
  "build_path preds current_node path =
     (case current_node of
        None \<Rightarrow> Some (Inr path)
      | Some node \<Rightarrow>
          (case preds node of
             None \<Rightarrow> Some (Inl (KeyError node))
           | Some pred \<Rightarrow> build_path preds pred (path @ [node])))"

declare build_path.simps [code]

text \<open>
  Lines 3--62: the whole function. \<open>Some (Inr (d, path))\<close> is the returned
  tuple, \<open>Some (Inl e)\<close> a raised \<open>KeyError\<close>, \<open>None\<close> non-termination.
\<close>

definition dijkstra :: "'n::linorder graph \<Rightarrow> 'n \<Rightarrow> 'n \<Rightarrow> ('n error + ext \<times> 'n list) option" where
  "dijkstra graph start target =
     (case run graph target (init_state graph start) of
        Found current_distance current_node st \<Rightarrow>
          (case build_path (predecessors st) (Some current_node) [] of
             None \<Rightarrow> None
           | Some (Inl err) \<Rightarrow> Some (Inl err)
           | Some (Inr path) \<Rightarrow> Some (Inr (Fin current_distance, rev path)))
      | Exhausted \<Rightarrow> Some (Inr (Inf, []))
      | Raised err \<Rightarrow> Some (Inl err))"

end
