(* ===== verification/Invariants.thy ===== *)
theory Invariants
  imports Dijkstra
begin

text \<open>
  The states the \<open>while pq:\<close> loop of \<open>src/dijkstra.py\<close> passes through,
  as an inductive predicate \<open>reach g s t\<close> (from \<open>init_state g s\<close>, by
  iterations of \<open>step g t\<close> that stay in the loop), and the invariants that
  hold in all of them. Each invariant is proved by rule induction over
  \<open>reach\<close>, one case per way an iteration can continue (a stale entry is
  discarded, a node without an entry in \<open>graph\<close> is visited, a node is
  visited and its edges relaxed).
\<close>

inductive reach :: "'n::linorder graph \<Rightarrow> 'n \<Rightarrow> 'n \<Rightarrow> 'n state \<Rightarrow> bool"
  for g :: "'n graph" and s :: 'n and t :: 'n where
  init: "reach g s t (init_state g s)"
| step: "reach g s t st \<Longrightarrow> step g t st = Inl st' \<Longrightarrow> reach g s t st'"

text \<open>
  The frontier invariant: \<open>pq\<close> is a heap; every entry \<open>(d, v)\<close> is at
  least the distance recorded for \<open>v\<close>; every unvisited node with a finite
  distance has its entry \<open>(distances[v], v)\<close> in \<open>pq\<close>.
\<close>

definition frontier_ok :: "'n::linorder state \<Rightarrow> bool" where
  "frontier_ok st \<longleftrightarrow> heap_inv (pq st)
     \<and> (\<forall>d v. (d, v) \<in> set (pq st) \<longrightarrow> (\<exists>dv. distances st v = Some (Fin dv) \<and> dv \<le> d))
     \<and> (\<forall>v dv. v \<notin> visited st \<longrightarrow> distances st v = Some (Fin dv) \<longrightarrow> (dv, v) \<in> set (pq st))"

text \<open>
  The shape of the two dictionaries: \<open>distances\<close> is defined exactly on the
  nodes of \<open>graph\<close> and \<open>start\<close>, \<open>predecessors\<close> exactly on the nodes of
  \<open>graph\<close>; the start keeps distance 0 and no predecessor node; the target is
  never visited (the loop returns when it is popped).
\<close>

definition tables_ok :: "'n graph \<Rightarrow> 'n \<Rightarrow> 'n \<Rightarrow> 'n::linorder state \<Rightarrow> bool" where
  "tables_ok g s t st \<longleftrightarrow>
     (\<forall>v. distances st v = None \<longleftrightarrow> v \<notin> graph_nodes g \<and> v \<noteq> s)
     \<and> (\<forall>v. predecessors st v = None \<longleftrightarrow> v \<notin> graph_nodes g)
     \<and> distances st s = Some (Fin 0)
     \<and> (\<forall>u. predecessors st s \<noteq> Some (Some u))
     \<and> (s \<notin> visited st \<longrightarrow> pq st = [(0, s)] \<and> visited st = {})
     \<and> t \<notin> visited st"

subsection \<open>The ways an iteration continues or stops\<close>

lemma step_Inl_cases:
  assumes "step g t st = Inl st'"
  obtains (discard) d n h' where "heappop (pq st) = Some ((d, n), h')" "n \<noteq> t"
      "n \<in> visited st" "st' = st\<lparr>pq := h'\<rparr>"
  | (leaf) d n h' where "heappop (pq st) = Some ((d, n), h')" "n \<noteq> t"
      "n \<notin> visited st" "map_of g n = None"
      "st' = st\<lparr>pq := h', visited := insert n (visited st)\<rparr>"
  | (expand) d n h' items where "heappop (pq st) = Some ((d, n), h')" "n \<noteq> t"
      "n \<notin> visited st" "map_of g n = Some items"
      "relax n d items (st\<lparr>pq := h', visited := insert n (visited st)\<rparr>) = Inr st'"
  using assms
  by (auto simp: step_def Let_def split: option.splits if_splits sum.splits)

lemma step_Found:
  assumes "step g t st = Inr (Found d n st')"
  shows "\<exists>h'. heappop (pq st) = Some ((d, n), h') \<and> n = t \<and> st' = st\<lparr>pq := h'\<rparr>"
  using assms
  by (auto simp: step_def Let_def split: option.splits if_splits sum.splits)

lemma step_Exhausted: "step g t st = Inr Exhausted \<longleftrightarrow> pq st = []"
  by (auto simp: step_def Let_def split: option.splits if_splits sum.splits)

lemma run_reach:
  "reach g s t st \<Longrightarrow> run g t st = x \<Longrightarrow> \<exists>st'. reach g s t st' \<and> step g t st' = Inr x"
proof (induction g t st rule: run.induct)
  case (1 g t st)
  show ?case
  proof (cases "step g t st")
    case (Inl st')
    then have "reach g s t st'" "run g t st' = x"
      using "1.prems" reach.step [of g s t st st'] by (auto simp: run.simps [of g t st])
    then show ?thesis using "1.IH" [OF Inl] by blast
  next
    case (Inr y)
    then show ?thesis using "1.prems" by (auto simp: run.simps [of g t st])
  qed
qed

subsection \<open>The relaxation loop as a sequence of updates\<close>

lemma relax_induct_inv:
  assumes "relax u d items st = Inr st'" "P st"
    and upd: "\<And>st v w dv. P st \<Longrightarrow> visited st = visited st0 \<Longrightarrow> (v, w) \<in> set items \<Longrightarrow>
               v \<notin> visited st \<Longrightarrow> distances st v = Some dv \<Longrightarrow> Fin (d + w) < dv \<Longrightarrow>
               P (relax_upd st u v (d + w))"
    and "visited st = visited st0"
  shows "P st'"
  using assms
proof (induction u d items st rule: relax.induct)
  case (1 u d st)
  then show ?case by simp
next
  case (2 u d v w items st)
  have upd': "\<And>st v' w' dv. P st \<Longrightarrow> visited st = visited st0 \<Longrightarrow> (v', w') \<in> set items \<Longrightarrow>
               v' \<notin> visited st \<Longrightarrow> distances st v' = Some dv \<Longrightarrow> Fin (d + w') < dv \<Longrightarrow>
               P (relax_upd st u v' (d + w'))"
    using "2.prems"(3) by simp
  show ?case
  proof (cases "v \<in> visited st")
    case True
    then show ?thesis using "2.IH"(1) "2.prems" upd' by simp
  next
    case nv: False
    then obtain dv where dv: "distances st v = Some dv"
      using "2.prems"(1) by (auto simp: Let_def split: option.splits)
    show ?thesis
    proof (cases "Fin (d + w) < dv")
      case True
      have "P (relax_upd st u v (d + w))"
        using "2.prems"(3) [OF "2.prems"(2) "2.prems"(4) _ nv dv True] by simp
      moreover have "relax u d items (relax_upd st u v (d + w)) = Inr st'"
        using "2.prems"(1) nv dv True by (simp add: relax_upd_def Let_def)
      ultimately show ?thesis
        using "2.IH"(2) [OF nv refl dv True] upd' "2.prems"(4)
        by (simp add: relax_upd_def)
    next
      case False
      then show ?thesis
        using "2.IH"(3) [OF nv refl dv False] "2.prems" upd' dv nv by simp
    qed
  qed
qed

subsection \<open>The frontier invariant\<close>

lemma distances_init:
  "distances (init_state g s) v = (if v = s then Some (Fin 0) else if v \<in> graph_nodes g then Some Inf else None)"
  by (simp add: init_state_def map_of_map_const)

lemma pq_init [simp]: "pq (init_state g s) = [(0, s)]"
  and visited_init [simp]: "visited (init_state g s) = {}"
  by (simp_all add: init_state_def)

lemma predecessors_init:
  "predecessors (init_state g s) v = (if v \<in> graph_nodes g then Some None else None)"
  by (simp add: init_state_def map_of_map_const)

lemma frontier_ok_init: "frontier_ok (init_state g s)"
  by (auto simp: frontier_ok_def distances_init heap_inv_def)

lemma frontier_ok_upd:
  assumes "frontier_ok st" "distances st v = Some dv" "Fin nd < dv"
  shows "frontier_ok (relax_upd st u v nd)"
proof -
  have heap: "heap_inv (pq (relax_upd st u v nd))"
    using assms(1) by (simp add: relax_upd_def frontier_ok_def heap_inv_heappush)
  have entries: "\<exists>dx. distances (relax_upd st u v nd) x = Some (Fin dx) \<and> dx \<le> d"
    if "(d, x) \<in> set (pq (relax_upd st u v nd))" for d x
  proof (cases "x = v")
    case True
    show ?thesis
    proof (cases "(d, x) = (nd, v)")
      case False
      with that True have "(d, v) \<in> set (pq st)" by (simp add: relax_upd_def)
      then obtain dx where "distances st v = Some (Fin dx)" "dx \<le> d"
        using assms(1) unfolding frontier_ok_def by blast
      then show ?thesis using assms(2,3) True by (cases dv) (auto simp: relax_upd_def)
    qed (simp add: relax_upd_def)
  next
    case False
    with that have "(d, x) \<in> set (pq st)" by (simp add: relax_upd_def)
    then show ?thesis using assms(1) False by (auto simp: frontier_ok_def relax_upd_def)
  qed
  have pending: "(dx, x) \<in> set (pq (relax_upd st u v nd))"
    if "x \<notin> visited (relax_upd st u v nd)" "distances (relax_upd st u v nd) x = Some (Fin dx)" for x dx
    using that assms(1) by (cases "x = v") (auto simp: frontier_ok_def relax_upd_def)
  show ?thesis using heap entries pending by (auto simp: frontier_ok_def)
qed

lemma frontier_ok_relax:
  "relax u d items st = Inr st' \<Longrightarrow> frontier_ok st \<Longrightarrow> frontier_ok st'"
  by (erule relax_induct_inv [where st0 = st]) (auto intro: frontier_ok_upd)

lemma frontier_ok_pop:
  assumes "frontier_ok st" "heappop (pq st) = Some ((d, n), h')"
    and "visited st \<subseteq> V" "n \<in> visited st \<or> n \<in> V"
  shows "frontier_ok (st\<lparr>pq := h', visited := V\<rparr>)"
proof -
  have set_pq: "set (pq st) = insert (d, n) (set h')" by (rule set_heappop [OF assms(2)])
  have "heap_inv h'" using assms(1,2) heap_inv_heappop by (auto simp: frontier_ok_def)
  moreover have "\<exists>dv. distances st v = Some (Fin dv) \<and> dv \<le> e" if "(e, v) \<in> set h'" for e v
    using assms(1) that set_pq by (auto simp: frontier_ok_def)
  moreover have "(dv, v) \<in> set h'" if "v \<notin> V" "distances st v = Some (Fin dv)" for v dv
  proof -
    have "v \<notin> visited st" "v \<noteq> n" using that assms(3,4) by auto
    then show ?thesis using assms(1) that(2) set_pq by (auto simp: frontier_ok_def)
  qed
  ultimately show ?thesis by (auto simp: frontier_ok_def)
qed

text \<open>The first entry popped for an unvisited node carries its current distance.\<close>

lemma frontier_pop_current:
  assumes "frontier_ok st" "heappop (pq st) = Some ((d, n), h')" "n \<notin> visited st"
  shows "distances st n = Some (Fin d)"
proof -
  have mem: "(d, n) \<in> set (pq st)" using set_heappop [OF assms(2)] by simp
  then obtain dn where dn: "distances st n = Some (Fin dn)" "dn \<le> d"
    using assms(1) unfolding frontier_ok_def by blast
  then have "(dn, n) \<in> set (pq st)" using assms(1,3) by (auto simp: frontier_ok_def)
  moreover have "heap_inv (pq st)" using assms(1) by (simp add: frontier_ok_def)
  ultimately have "(d, n) \<le> (dn, n)" using heappop_least assms(2) by blast
  then have "d \<le> dn" by (auto simp: less_eq_prod_def)
  then show ?thesis using dn by simp
qed

lemma reach_frontier_ok: "reach g s t st \<Longrightarrow> frontier_ok st"
proof (induction rule: reach.induct)
  case init
  show ?case by (rule frontier_ok_init)
next
  case (step st st')
  from step.hyps(2) show ?case
  proof (cases rule: step_Inl_cases)
    case (discard d n h')
    then show ?thesis
      using frontier_ok_pop [OF step.IH discard(1), of "visited st"] by simp
  next
    case (leaf d n h')
    then show ?thesis using frontier_ok_pop [OF step.IH leaf(1)] by auto
  next
    case (expand d n h' items)
    have "frontier_ok (st\<lparr>pq := h', visited := insert n (visited st)\<rparr>)"
      using frontier_ok_pop [OF step.IH expand(1)] by auto
    then show ?thesis using frontier_ok_relax [OF expand(5)] by simp
  qed
qed

subsection \<open>The shape of the tables\<close>

lemma tables_ok_init: "tables_ok g s t (init_state g s)"
  by (auto simp: tables_ok_def distances_init predecessors_init)

lemma tables_ok_upd:
  assumes "tables_ok g s t st" "s \<in> visited st" "v \<notin> visited st" "distances st v = Some dv"
  shows "tables_ok g s t (relax_upd st u v nd)"
proof -
  let ?st = "relax_upd st u v nd"
  have vs: "v \<noteq> s" using assms(2,3) by auto
  have dom: "\<And>x. distances st x = None \<longleftrightarrow> x \<notin> graph_nodes g \<and> x \<noteq> s"
    using assms(1) by (simp add: tables_ok_def)
  have "distances st v \<noteq> None" using assms(4) by simp
  then have vn: "v \<in> graph_nodes g" using dom [of v] vs by simp
  have c1: "\<forall>x. distances ?st x = None \<longleftrightarrow> x \<notin> graph_nodes g \<and> x \<noteq> s"
    using dom vn by (simp add: relax_upd_def)
  have c2: "\<forall>x. predecessors ?st x = None \<longleftrightarrow> x \<notin> graph_nodes g"
    using assms(1) vn by (simp add: tables_ok_def relax_upd_def)
  have c3: "distances ?st s = Some (Fin 0)" "\<forall>w. predecessors ?st s \<noteq> Some (Some w)"
    using assms(1) vs by (simp_all add: tables_ok_def relax_upd_def)
  have c4: "visited ?st = visited st" by (simp add: relax_upd_def)
  show ?thesis using c1 c2 c3 c4 assms(1,2) unfolding tables_ok_def by simp
qed

lemma tables_ok_relax:
  assumes "relax u d items st = Inr st'" "tables_ok g s t st" "s \<in> visited st"
  shows "tables_ok g s t st'"
proof -
  have "tables_ok g s t st' \<and> s \<in> visited st'"
    by (rule relax_induct_inv [where st0 = st, OF assms(1)])
       (use assms(2,3) in \<open>auto intro: tables_ok_upd\<close>)
  then show ?thesis ..
qed

lemma reach_tables_ok: "reach g s t st \<Longrightarrow> tables_ok g s t st"
proof (induction rule: reach.induct)
  case init
  show ?case by (rule tables_ok_init)
next
  case (step st st')
  have fresh: "n = s" if "s \<notin> visited st" "heappop (pq st) = Some ((d, n), h')" for d n h'
    using step.IH that by (auto simp: tables_ok_def heappop_def)
  from step.hyps(2) show ?case
  proof (cases rule: step_Inl_cases)
    case (discard d n h')
    have "s \<in> visited st" using fresh [OF _ discard(1)] discard(3) step.IH
      by (auto simp: tables_ok_def)
    then show ?thesis using discard step.IH by (auto simp: tables_ok_def)
  next
    case (leaf d n h')
    have "s \<in> insert n (visited st)" using fresh [OF _ leaf(1)] by auto
    then show ?thesis using leaf step.IH by (auto simp: tables_ok_def)
  next
    case (expand d n h' items)
    let ?st2 = "st\<lparr>pq := h', visited := insert n (visited st)\<rparr>"
    have s2: "s \<in> visited ?st2" using fresh [OF _ expand(1)] by auto
    then have "tables_ok g s t ?st2" using expand step.IH by (auto simp: tables_ok_def)
    then show ?thesis using tables_ok_relax [OF expand(5) _ s2] by simp
  qed
qed

end
