(* ===== verification/Chains.thy ===== *)
theory Chains
  imports Invariants
begin

text \<open>
  The predecessor chains of \<open>src/dijkstra.py\<close> and the path the code
  reconstructs from them (lines 37--42), and the relaxation property of the
  visited nodes. \<open>chain_in P V x\<close>: following \<open>P\<close> from \<open>x\<close> stays in
  \<open>V\<close> and stops (at a node whose entry is \<open>None\<close>, or one with no entry).
  \<open>preds_ok\<close>: each predecessor link is an edge of the graph from a visited
  node that realises the recorded distance, and the visited nodes' chains stop.
  \<open>relaxed_ok\<close>: each edge out of a visited node is relaxed. From these:
  the reconstruction always returns, returns a path of the graph of the
  returned cost, never raises on a found target, and an exhausted frontier
  means the target is unreachable.
\<close>

inductive chain_in :: "('n \<rightharpoonup> 'n option) \<Rightarrow> 'n set \<Rightarrow> 'n \<Rightarrow> bool" for P V where
  root: "x \<in> V \<Longrightarrow> P x = Some None \<Longrightarrow> chain_in P V x"
| missing: "x \<in> V \<Longrightarrow> P x = None \<Longrightarrow> chain_in P V x"
| link: "x \<in> V \<Longrightarrow> P x = Some (Some y) \<Longrightarrow> chain_in P V y \<Longrightarrow> chain_in P V x"

definition preds_ok :: "'n graph \<Rightarrow> 'n \<Rightarrow> 'n::linorder state \<Rightarrow> bool" where
  "preds_ok g s st \<longleftrightarrow>
     (\<forall>v u. predecessors st v = Some (Some u) \<longrightarrow> u \<in> visited st \<and>
        (\<exists>items w du. map_of g u = Some items \<and> (v, w) \<in> set items
           \<and> distances st u = Some (Fin du) \<and> distances st v = Some (Fin (du + w))))
     \<and> (\<forall>x \<in> visited st. chain_in (predecessors st) (visited st) x)
     \<and> (\<forall>v dv. v \<noteq> s \<longrightarrow> distances st v = Some (Fin dv) \<longrightarrow> (\<exists>u. predecessors st v = Some (Some u)))"

fun pred_links :: "('n \<rightharpoonup> 'n option) \<Rightarrow> 'n list \<Rightarrow> bool" where
  "pred_links P (x # y # zs) = (P x = Some (Some y) \<and> pred_links P (y # zs))"
| "pred_links P _ = True"

definition relaxed_ok :: "'n graph \<Rightarrow> 'n::linorder state \<Rightarrow> bool" where
  "relaxed_ok g st \<longleftrightarrow>
     (\<forall>u \<in> visited st. \<forall>items. map_of g u = Some items \<longrightarrow>
        (\<forall>(v, w) \<in> set items. v \<in> visited st \<or>
           (\<exists>du dv. distances st u = Some (Fin du) \<and> distances st v = Some (Fin dv) \<and> dv \<le> du + w)))"

subsection \<open>Invariant of the predecessor links\<close>

lemma chain_in_mono: "chain_in P V x \<Longrightarrow> V \<subseteq> W \<Longrightarrow> chain_in P W x"
  by (induction rule: chain_in.induct) (auto intro: chain_in.intros)

lemma chain_in_upd: "chain_in P V x \<Longrightarrow> v \<notin> V \<Longrightarrow> chain_in (P(v \<mapsto> z)) V x"
proof (induction rule: chain_in.induct)
  case (root x)
  then show ?case by (auto intro: chain_in.root)
next
  case (missing x)
  then show ?case by (auto intro: chain_in.missing)
next
  case (link x y)
  then show ?case by (auto intro: chain_in.link)
qed

lemma preds_ok_init: "preds_ok g s (init_state g s)"
  by (auto simp: preds_ok_def distances_init predecessors_init split: if_splits)

lemma preds_ok_visit:
  assumes "preds_ok g s st"
  shows "preds_ok g s (st\<lparr>pq := h', visited := insert n (visited st)\<rparr>)"
proof -
  let ?P = "predecessors st" and ?V = "insert n (visited st)"
  have old: "chain_in ?P ?V x" if "x \<in> visited st" for x
    using assms that chain_in_mono [of ?P "visited st" x ?V] by (auto simp: preds_ok_def)
  have new: "chain_in ?P ?V n"
  proof (cases "?P n")
    case None
    then show ?thesis by (simp add: chain_in.missing)
  next
    case (Some p)
    show ?thesis
    proof (cases p)
      case None
      then show ?thesis using Some by (simp add: chain_in.root)
    next
      case (Some y)
      then have "y \<in> visited st" using \<open>?P n = Some p\<close> assms by (auto simp: preds_ok_def)
      then show ?thesis using old \<open>?P n = Some p\<close> Some by (auto intro: chain_in.link)
    qed
  qed
  show ?thesis using assms old new by (auto simp: preds_ok_def)
qed

lemma preds_ok_upd:
  assumes "preds_ok g s st" "n \<in> visited st" "distances st n = Some (Fin d)"
    "map_of g n = Some items" "(v, w) \<in> set items" "v \<notin> visited st"
  shows "preds_ok g s (relax_upd st n v (d + w))"
proof -
  let ?st = "relax_upd st n v (d + w)"
  have vn: "v \<noteq> n" using assms(2,6) by auto
  have p1: "u \<in> visited ?st \<and>
        (\<exists>items w du. map_of g u = Some items \<and> (x, w) \<in> set items
           \<and> distances ?st u = Some (Fin du) \<and> distances ?st x = Some (Fin (du + w)))"
    if "predecessors ?st x = Some (Some u)" for x u
  proof (cases "x = v")
    case True
    then show ?thesis using that assms(2-5) vn by auto
  next
    case False
    then have "predecessors st x = Some (Some u)" using that by simp
    then have "u \<in> visited st \<and>
        (\<exists>items w du. map_of g u = Some items \<and> (x, w) \<in> set items
           \<and> distances st u = Some (Fin du) \<and> distances st x = Some (Fin (du + w)))"
      using assms(1) unfolding preds_ok_def by blast
    moreover have "u \<noteq> v" using calculation assms(6) by auto
    ultimately show ?thesis using False by simp
  qed
  have p2: "chain_in (predecessors ?st) (visited ?st) x" if "x \<in> visited ?st" for x
  proof -
    have "chain_in (predecessors st) (visited st) x" using assms(1) that by (simp add: preds_ok_def)
    then show ?thesis using chain_in_upd [OF _ assms(6)] by simp
  qed
  have p3: "\<exists>u. predecessors ?st x = Some (Some u)"
    if "x \<noteq> s" "distances ?st x = Some (Fin dx)" for x dx
    using assms(1) that by (cases "x = v") (auto simp: preds_ok_def)
  show ?thesis unfolding preds_ok_def using p1 p2 p3 by blast
qed

lemma preds_ok_relax:
  assumes "relax n d items st = Inr st'" "preds_ok g s st" "n \<in> visited st"
    "distances st n = Some (Fin d)" "map_of g n = Some items"
  shows "preds_ok g s st'"
proof -
  have "preds_ok g s st' \<and> n \<in> visited st' \<and> distances st' n = Some (Fin d)"
  proof (rule relax_induct_inv [where st0 = st, OF assms(1)])
    fix st1 v w dv
    assume "preds_ok g s st1 \<and> n \<in> visited st1 \<and> distances st1 n = Some (Fin d)"
      "(v, w) \<in> set items" "v \<notin> visited st1"
    then show "preds_ok g s (relax_upd st1 n v (d + w)) \<and> n \<in> visited (relax_upd st1 n v (d + w))
               \<and> distances (relax_upd st1 n v (d + w)) n = Some (Fin d)"
      using preds_ok_upd [of g s st1 n d items v w] assms(5) by auto
  qed (use assms in auto)
  then show ?thesis ..
qed

lemma reach_preds_ok: "reach g s t st \<Longrightarrow> preds_ok g s st"
proof (induction rule: reach.induct)
  case init
  show ?case by (rule preds_ok_init)
next
  case (step st st')
  from step.hyps(2) show ?case
  proof (cases rule: step_Inl_cases)
    case (discard d n h')
    then show ?thesis using step.IH by (simp add: preds_ok_def)
  next
    case (leaf d n h')
    then show ?thesis using preds_ok_visit [OF step.IH] by simp
  next
    case (expand d n h' items)
    let ?st2 = "st\<lparr>pq := h', visited := insert n (visited st)\<rparr>"
    have "distances st n = Some (Fin d)"
      using frontier_pop_current [OF reach_frontier_ok [OF step.hyps(1)] expand(1,3)] .
    then show ?thesis
      using preds_ok_relax [OF expand(5) preds_ok_visit [OF step.IH]] expand(4) by simp
  qed
qed

subsection \<open>Path reconstruction along a predecessor chain\<close>

lemma build_path_chain:
  assumes "chain_in P V x"
  shows "\<exists>r. build_path P (Some x) acc = Some r"
  using assms
proof (induction arbitrary: acc rule: chain_in.induct)
  case (root x)
  then show ?case by (simp add: build_path.simps)
next
  case (missing x)
  then show ?case by (simp add: build_path.simps)
next
  case (link x y)
  then show ?case by (simp add: build_path.simps [of P "Some x"])
qed

lemma pred_links_ConsD: "pred_links P (x # ys) \<Longrightarrow> pred_links P ys"
  by (cases ys) auto

lemma pred_links_appendD: "pred_links P (xs @ ys) \<Longrightarrow> pred_links P ys"
  by (induction xs) (auto dest: pred_links_ConsD)

text \<open>A list of predecessor links that ends at a root is determined by its head.\<close>

lemma pred_links_unique:
  assumes "pred_links P c" "c \<noteq> []" "P (last c) = Some None"
    and "pred_links P c'" "c' \<noteq> []" "P (last c') = Some None" "hd c = hd c'"
  shows "c = c'"
  using assms
proof (induction c arbitrary: c')
  case (Cons x r)
  obtain r' where c': "c' = x # r'" using Cons.prems(5,7) by (cases c') auto
  show ?case
  proof (cases r)
    case Nil
    then have "P x = Some None" using Cons.prems(3) by simp
    then have "r' = []" using Cons.prems(4) c' by (cases r') auto
    then show ?thesis using Nil c' by simp
  next
    case (Cons y zs)
    then have px: "P x = Some (Some y)" using Cons.prems(1) by simp
    obtain y' zs' where r': "r' = y' # zs'"
      using Cons.prems(4,6) c' px by (cases r') auto
    then have "y' = y" using Cons.prems(4) c' px by simp
    then have "r = r'" using Cons.IH [of r'] Cons.prems Cons r' c' by simp
    then show ?thesis using c' by simp
  qed
qed simp

lemma pred_links_distinct:
  "pred_links P c \<Longrightarrow> c \<noteq> [] \<Longrightarrow> P (last c) = Some None \<Longrightarrow> distinct c"
proof (induction c)
  case (Cons x r)
  show ?case
  proof (cases r)
    case (Cons y r')
    then have r: "pred_links P r" "r \<noteq> []" "P (last r) = Some None"
      using Cons.prems by simp_all
    have "x \<notin> set r"
    proof
      assume "x \<in> set r"
      then obtain r1 r2 where split: "r = r1 @ x # r2" by (meson split_list)
      then have "pred_links P (x # r2)" using r(1) pred_links_appendD by blast
      moreover have "P (last (x # r2)) = Some None" using r(3) split by simp
      ultimately have "x # r2 = x # r"
        using pred_links_unique [of P "x # r2" "x # r"] Cons.prems by simp
      then show False using split by simp
    qed
    then show ?thesis using Cons.IH [OF r] by simp
  qed simp
qed simp

lemma build_path_chain_Inr:
  assumes "chain_in P V x" "\<forall>y \<in> V. P y \<noteq> None"
  shows "\<exists>c. build_path P (Some x) acc = Some (Inr (acc @ c)) \<and> c \<noteq> [] \<and> hd c = x
             \<and> P (last c) = Some None \<and> pred_links P c \<and> set c \<subseteq> V"
  using assms
proof (induction arbitrary: acc rule: chain_in.induct)
  case (root x)
  then show ?case by (intro exI [of _ "[x]"]) (simp add: build_path.simps)
next
  case (missing x)
  then show ?case by simp
next
  case (link x y)
  have "\<exists>c. build_path P (Some y) (acc @ [x]) = Some (Inr ((acc @ [x]) @ c)) \<and> c \<noteq> [] \<and> hd c = y
             \<and> P (last c) = Some None \<and> pred_links P c \<and> set c \<subseteq> V"
    using link.IH link.prems by blast
  then obtain c where c: "build_path P (Some y) (acc @ [x]) = Some (Inr ((acc @ [x]) @ c))"
    "c \<noteq> []" "hd c = y" "P (last c) = Some None" "pred_links P c" "set c \<subseteq> V"
    by blast
  then have "pred_links P (x # c)" using link.hyps(2) by (cases c) auto
  then show ?case using c link.hyps(1,2)
    by (intro exI [of _ "x # c"]) (simp add: build_path.simps [of P "Some x"])
qed

subsection \<open>What the relaxation loop does to the distances\<close>

lemma relax_lowers:
  assumes "relax u d items st = Inr st'"
  shows "(\<forall>x dx. distances st x = Some (Fin dx) \<longrightarrow> (\<exists>dx'. distances st' x = Some (Fin dx') \<and> dx' \<le> dx))
         \<and> (\<forall>x. distances st' x = None \<longleftrightarrow> distances st x = None)
         \<and> (\<forall>x \<in> visited st. distances st' x = distances st x \<and> predecessors st' x = predecessors st x)"
proof -
  have "(\<forall>x dx. distances st x = Some (Fin dx) \<longrightarrow> (\<exists>dx'. distances st' x = Some (Fin dx') \<and> dx' \<le> dx))
         \<and> (\<forall>x. distances st' x = None \<longleftrightarrow> distances st x = None)
         \<and> (\<forall>x \<in> visited st. distances st' x = distances st x \<and> predecessors st' x = predecessors st x)"
  proof (rule relax_induct_inv [where st0 = st, OF assms])
    fix st1 :: "'a state" and v w dv
    assume inv: "(\<forall>x dx. distances st x = Some (Fin dx) \<longrightarrow> (\<exists>dx'. distances st1 x = Some (Fin dx') \<and> dx' \<le> dx))
         \<and> (\<forall>x. distances st1 x = None \<longleftrightarrow> distances st x = None)
         \<and> (\<forall>x \<in> visited st. distances st1 x = distances st x \<and> predecessors st1 x = predecessors st x)"
      and vis: "visited st1 = visited st" "v \<notin> visited st1"
      and dv: "distances st1 v = Some dv" "Fin (d + w) < dv"
    let ?st = "relax_upd st1 u v (d + w)"
    have "\<exists>dx'. distances ?st x = Some (Fin dx') \<and> dx' \<le> dx" if x: "distances st x = Some (Fin dx)" for x dx
    proof (cases "x = v")
      case True
      obtain dx' where "distances st1 v = Some (Fin dx')" "dx' \<le> dx" using inv x True by blast
      then show ?thesis using True dv by auto
    next
      case False
      then show ?thesis using inv x by auto
    qed
    moreover have "distances ?st x = None \<longleftrightarrow> distances st x = None" for x
    proof (cases "x = v")
      case True
      have iff: "\<forall>x. (distances st1 x = None) = (distances st x = None)" using inv by blast
      have "distances st1 v \<noteq> None" using dv by simp
      then have "distances st v \<noteq> None" using iff [rule_format, of v] by simp
      then show ?thesis using True by simp
    qed (use inv in simp)
    moreover have "distances ?st x = distances st x \<and> predecessors ?st x = predecessors st x"
      if "x \<in> visited st" for x
      using inv that vis by (cases "x = v") auto
    ultimately show "(\<forall>x dx. distances st x = Some (Fin dx) \<longrightarrow> (\<exists>dx'. distances ?st x = Some (Fin dx') \<and> dx' \<le> dx))
         \<and> (\<forall>x. distances ?st x = None \<longleftrightarrow> distances st x = None)
         \<and> (\<forall>x \<in> visited st. distances ?st x = distances st x \<and> predecessors ?st x = predecessors st x)"
      by blast
  qed auto
  then show ?thesis .
qed

lemma relax_relaxes:
  assumes "relax u d items st = Inr st'" "(v, w) \<in> set items" "v \<notin> visited st"
  shows "\<exists>dv. distances st' v = Some (Fin dv) \<and> dv \<le> d + w"
  using assms
proof (induction u d items st rule: relax.induct)
  case (1 u d st)
  then show ?case by simp
next
  case (2 u d v0 w0 items st)
  show ?case
  proof (cases "v0 \<in> visited st")
    case True
    then have "(v, w) \<in> set items" using "2.prems"(2,3) by auto
    then show ?thesis using "2.IH"(1) True "2.prems" by simp
  next
    case nv: False
    then obtain dv0 where dv0: "distances st v0 = Some dv0"
      using "2.prems"(1) by (auto simp: Let_def split: option.splits)
    show ?thesis
    proof (cases "Fin (d + w0) < dv0")
      case lt: True
      let ?st = "relax_upd st u v0 (d + w0)"
      have rest: "relax u d items ?st = Inr st'"
        using "2.prems"(1) nv dv0 lt by (simp add: relax_upd_def Let_def)
      show ?thesis
      proof (cases "(v, w) \<in> set items")
        case True
        then show ?thesis
          using "2.IH"(2) [OF nv refl dv0 lt] rest "2.prems"(3) by (simp add: relax_upd_def)
      next
        case False
        then have "v = v0" "w = w0" using "2.prems"(2) by auto
        then show ?thesis using relax_lowers [OF rest] by auto
      qed
    next
      case ge: False
      have rest: "relax u d items st = Inr st'" using "2.prems"(1) nv dv0 ge by (simp add: Let_def)
      show ?thesis
      proof (cases "(v, w) \<in> set items")
        case True
        then show ?thesis using "2.IH"(3) [OF nv refl dv0 ge] rest "2.prems"(3) by simp
      next
        case False
        then have vw: "v = v0" "w = w0" using "2.prems"(2) by auto
        obtain x where "dv0 = Fin x" "x \<le> d + w0" using ge by (cases dv0) auto
        then show ?thesis using relax_lowers [OF rest] dv0 vw by fastforce
      qed
    qed
  qed
qed

lemma relax_Inl:
  assumes "relax u d items st = Inl (KeyError v)"
  shows "(\<exists>w. (v, w) \<in> set items) \<and> v \<notin> visited st \<and> distances st v = None"
  using assms
proof (induction u d items st rule: relax.induct)
  case (1 u d st)
  then show ?case by simp
next
  case (2 u d v0 w0 items st)
  show ?case
  proof (cases "v0 \<in> visited st")
    case True
    then show ?thesis using "2.IH"(1) "2.prems" by auto
  next
    case nv: False
    show ?thesis
    proof (cases "distances st v0")
      case None
      then show ?thesis using "2.prems" nv by (auto simp: Let_def)
    next
      case (Some dv0)
      show ?thesis
      proof (cases "Fin (d + w0) < dv0")
        case True
        then have "(\<exists>w. (v, w) \<in> set items) \<and> v \<notin> visited st \<and>
                   distances (relax_upd st u v0 (d + w0)) v = None"
          using "2.IH"(2) [OF nv refl Some True] "2.prems" nv Some by (simp add: relax_upd_def Let_def)
        then show ?thesis by (auto split: if_splits)
      next
        case False
        then show ?thesis using "2.IH"(3) [OF nv refl Some False] "2.prems" nv Some
          by (auto simp: Let_def)
      qed
    qed
  qed
qed

subsection \<open>Every edge out of a visited node is relaxed\<close>

lemma relaxed_ok_visit:
  assumes ok: "relaxed_ok g st" and none: "map_of g n = None"
  shows "relaxed_ok g (st\<lparr>pq := h', visited := insert n (visited st)\<rparr>)"
  unfolding relaxed_ok_def
proof (intro ballI allI impI)
  fix u its vw
  assume u: "u \<in> visited (st\<lparr>pq := h', visited := insert n (visited st)\<rparr>)"
    and its: "map_of g u = Some its" and vw: "vw \<in> set its"
  have "u \<noteq> n" using its none by auto
  then have "u \<in> visited st" using u by simp
  then have "case vw of (v, w) \<Rightarrow> v \<in> visited st \<or>
           (\<exists>du dv. distances st u = Some (Fin du) \<and> distances st v = Some (Fin dv) \<and> dv \<le> du + w)"
    using ok its vw unfolding relaxed_ok_def by blast
  then show "case vw of (v, w) \<Rightarrow> v \<in> visited (st\<lparr>pq := h', visited := insert n (visited st)\<rparr>) \<or>
           (\<exists>du dv. distances (st\<lparr>pq := h', visited := insert n (visited st)\<rparr>) u = Some (Fin du)
              \<and> distances (st\<lparr>pq := h', visited := insert n (visited st)\<rparr>) v = Some (Fin dv) \<and> dv \<le> du + w)"
    by (cases vw) auto
qed

lemma relaxed_ok_expand:
  assumes ok: "relaxed_ok g st" and rel: "relax n d items (st\<lparr>pq := h', visited := insert n (visited st)\<rparr>) = Inr st'"
    and items: "map_of g n = Some items" and dn: "distances st n = Some (Fin d)"
  shows "relaxed_ok g st'"
proof -
  let ?st2 = "st\<lparr>pq := h', visited := insert n (visited st)\<rparr>"
  have low: "\<forall>x dx. distances ?st2 x = Some (Fin dx) \<longrightarrow> (\<exists>dx'. distances st' x = Some (Fin dx') \<and> dx' \<le> dx)"
    and fixd: "\<forall>x \<in> visited ?st2. distances st' x = distances ?st2 x"
    using relax_lowers [OF rel] by blast+
  have vis: "visited st' = insert n (visited st)" using relax_visited [OF rel] by simp
  show ?thesis unfolding relaxed_ok_def
  proof (intro ballI allI impI)
    fix u its vw
    assume u: "u \<in> visited st'" and its: "map_of g u = Some its" and vw: "vw \<in> set its"
    obtain v w where vw_eq: "vw = (v, w)" by fastforce
    have du_fix: "distances st' u = distances st u" using fixd u vis by auto
    show "case vw of (v, w) \<Rightarrow> v \<in> visited st' \<or>
            (\<exists>du dv. distances st' u = Some (Fin du) \<and> distances st' v = Some (Fin dv) \<and> dv \<le> du + w)"
    proof (cases "u = n")
      case True
      then have "its = items" using its items by simp
      then have "v \<in> visited ?st2 \<or> (\<exists>dv. distances st' v = Some (Fin dv) \<and> dv \<le> d + w)"
        using relax_relaxes [OF rel] vw vw_eq by blast
      then show ?thesis using vw_eq vis du_fix True dn by auto
    next
      case False
      then have "u \<in> visited st" using u vis by simp
      then have "v \<in> visited st \<or>
            (\<exists>du dv. distances st u = Some (Fin du) \<and> distances st v = Some (Fin dv) \<and> dv \<le> du + w)"
        using ok its vw vw_eq unfolding relaxed_ok_def by fastforce
      then show ?thesis
      proof
        assume "v \<in> visited st"
        then show ?thesis using vw_eq vis by simp
      next
        assume "\<exists>du dv. distances st u = Some (Fin du) \<and> distances st v = Some (Fin dv) \<and> dv \<le> du + w"
        then obtain du dv where "distances st u = Some (Fin du)" "distances st v = Some (Fin dv)" "dv \<le> du + w"
          by blast
        moreover obtain dv' where "distances st' v = Some (Fin dv')" "dv' \<le> dv"
          using low calculation(2) by fastforce
        ultimately show ?thesis using vw_eq du_fix by auto
      qed
    qed
  qed
qed

lemma reach_relaxed_ok: "reach g s t st \<Longrightarrow> relaxed_ok g st"
proof (induction rule: reach.induct)
  case init
  show ?case by (simp add: relaxed_ok_def)
next
  case (step st st')
  from step.hyps(2) show ?case
  proof (cases rule: step_Inl_cases)
    case (discard d n h')
    then show ?thesis using step.IH by (simp add: relaxed_ok_def)
  next
    case (leaf d n h')
    then show ?thesis using relaxed_ok_visit [OF step.IH] by simp
  next
    case (expand d n h' items)
    have "distances st n = Some (Fin d)"
      using frontier_pop_current [OF reach_frontier_ok [OF step.hyps(1)] expand(1,3)] .
    then show ?thesis using relaxed_ok_expand [OF step.IH expand(5,4)] by simp
  qed
qed

lemma chain_path:
  assumes "preds_ok g s st" "wf_graph g" "pred_links (predecessors st) c" "c \<noteq> []"
    "distances st (hd c) = Some (Fin dh)"
  shows "\<exists>dl. distances st (last c) = Some (Fin dl) \<and> path_cost g (rev c) = Some (dh - dl)"
  using assms(3-5)
proof (induction c arbitrary: dh)
  case Nil
  then show ?case by simp
next
  case (Cons x c')
  show ?case
  proof (cases c')
    case Nil
    then show ?thesis using Cons.prems by simp
  next
    case (Cons y zs)
    then have link: "predecessors st x = Some (Some y)" and rest: "pred_links (predecessors st) c'"
      using Cons.prems(1) by simp_all
    obtain items w dy where y: "map_of g y = Some items" "(x, w) \<in> set items"
      "distances st y = Some (Fin dy)" "distances st x = Some (Fin (dy + w))"
      using assms(1) link unfolding preds_ok_def by blast
    have dh: "dh = dy + w" using y(4) Cons.prems(3) by simp
    obtain dl where dl: "distances st (last c') = Some (Fin dl)" "path_cost g (rev c') = Some (dy - dl)"
      using Cons.IH [OF rest] y(3) \<open>c' = y # zs\<close> by auto
    have "edge_weight g y x = Some w" using edge_weight_SomeI [OF assms(2) y(1,2)] .
    moreover have "last (rev c') = y" "rev c' \<noteq> []" using \<open>c' = y # zs\<close> by simp_all
    ultimately have "path_cost g (rev c' @ [x]) = Some (dy - dl + w)"
      using path_cost_snoc [OF _ dl(2)] by simp
    then show ?thesis using dl dh \<open>c' = y # zs\<close> by (simp add: algebra_simps)
  qed
qed

subsection \<open>The exits of the loop\<close>

lemma step_Raised:
  assumes "step g t st = Inr (Raised e)"
  shows "\<exists>d n h' items. heappop (pq st) = Some ((d, n), h') \<and> n \<notin> visited st \<and> map_of g n = Some items
           \<and> relax n d items (st\<lparr>pq := h', visited := insert n (visited st)\<rparr>) = Inl e"
  using assms by (auto simp: step_def Let_def split: option.splits if_splits sum.splits)

lemma chain_in_restrict:
  "chain_in P V x \<Longrightarrow> x \<in> W \<Longrightarrow> (\<forall>v u. P v = Some (Some u) \<longrightarrow> u \<in> W) \<Longrightarrow> chain_in P (V \<inter> W) x"
  by (induction rule: chain_in.induct) (auto intro: chain_in.intros)

text \<open>The state in which the loop returns at the target.\<close>

lemma run_Found:
  assumes "run g t (init_state g s) = Found d n st1"
  shows "\<exists>st. reach g s t st \<and> n = t \<and> t \<notin> visited st \<and> distances st t = Some (Fin d)
             \<and> predecessors st1 = predecessors st
             \<and> (\<exists>h'. heappop (pq st) = Some ((d, t), h'))"
proof -
  obtain st where st: "reach g s t st" "step g t st = Inr (Found d n st1)"
    using run_reach [OF reach.init assms] by blast
  obtain h' where h': "heappop (pq st) = Some ((d, n), h')" "n = t" "st1 = st\<lparr>pq := h'\<rparr>"
    using step_Found [OF st(2)] by blast
  have "t \<notin> visited st" using reach_tables_ok [OF st(1)] by (simp add: tables_ok_def)
  then have "distances st t = Some (Fin d)"
    using frontier_pop_current [OF reach_frontier_ok [OF st(1)]] h' by simp
  then show ?thesis using st(1) h' \<open>t \<notin> visited st\<close> by auto
qed

lemma preds_ok_in_graph:
  assumes "preds_ok g s st" "predecessors st v = Some (Some u)"
  shows "u \<in> graph_nodes g"
proof -
  obtain items where "map_of g u = Some items" using assms unfolding preds_ok_def by blast
  then show ?thesis using graph_nodes_map_of [of g u] by auto
qed

lemma found_chain:
  assumes "reach g s t st" "t \<notin> visited st" "distances st t = Some (Fin d)"
  shows "chain_in (predecessors st) (insert t (visited st \<inter> graph_nodes g)) t"
proof -
  let ?P = "predecessors st" and ?V = "insert t (visited st \<inter> graph_nodes g)"
  have pok: "preds_ok g s st" by (rule reach_preds_ok [OF assms(1)])
  have W: "\<forall>v u. ?P v = Some (Some u) \<longrightarrow> u \<in> graph_nodes g"
    using preds_ok_in_graph [OF pok] by blast
  show ?thesis
  proof (cases "?P t")
    case None
    then show ?thesis by (simp add: chain_in.missing)
  next
    case (Some p)
    show ?thesis
    proof (cases p)
      case None
      then show ?thesis using Some by (simp add: chain_in.root)
    next
      case (Some u)
      then have u: "?P t = Some (Some u)" using \<open>?P t = Some p\<close> by simp
      then have "u \<in> visited st" "u \<in> graph_nodes g" using pok W by (auto simp: preds_ok_def)
      then have "chain_in ?P (visited st \<inter> graph_nodes g) u"
        using pok W chain_in_restrict [of ?P "visited st" u "graph_nodes g"] by (simp add: preds_ok_def)
      then have "chain_in ?P ?V u" by (rule chain_in_mono) auto
      then show ?thesis using u by (auto intro: chain_in.link)
    qed
  qed
qed

lemma found_path:
  assumes "reach g s t st" "t \<notin> visited st" "distances st t = Some (Fin d)"
    and "t \<in> graph_nodes g \<or> t \<noteq> s"
  shows "\<exists>c. build_path (predecessors st) (Some t) [] = Some (Inr c)
             \<and> (wf_graph g \<longrightarrow> is_path g s (rev c) t d)
             \<and> distinct c \<and> set c \<subseteq> graph_nodes g"
proof -
  let ?P = "predecessors st" and ?V = "insert t (visited st \<inter> graph_nodes g)"
  have tab: "tables_ok g s t st" by (rule reach_tables_ok [OF assms(1)])
  have pok: "preds_ok g s st" by (rule reach_preds_ok [OF assms(1)])
  have "t \<in> graph_nodes g"
  proof (rule ccontr)
    assume "t \<notin> graph_nodes g"
    then have "distances st t = None" using assms(4) tab by (simp add: tables_ok_def)
    then show False using assms(3) by simp
  qed
  then have notNone: "\<forall>y \<in> ?V. ?P y \<noteq> None" using tab by (auto simp: tables_ok_def)
  obtain c where c: "build_path ?P (Some t) [] = Some (Inr ([] @ c))" "c \<noteq> []" "hd c = t"
    "?P (last c) = Some None" "pred_links ?P c" "set c \<subseteq> ?V"
    using build_path_chain_Inr [OF found_chain [OF assms(1-3)] notNone, of "[]"] by blast
  have "is_path g s (rev c) t d" if wf: "wf_graph g"
  proof -
    obtain dl where dl: "distances st (last c) = Some (Fin dl)" "path_cost g (rev c) = Some (d - dl)"
      using chain_path [OF pok wf c(5,2)] c(3) assms(3) by auto
    have "last c = s"
    proof (rule ccontr)
      assume "last c \<noteq> s"
      then obtain u where "?P (last c) = Some (Some u)" using pok dl(1) by (auto simp: preds_ok_def)
      then show False using c(4) by simp
    qed
    then have "dl = 0" using dl(1) tab by (simp add: tables_ok_def)
    then show ?thesis using dl(2) c(2,3) \<open>last c = s\<close> by (simp add: is_path_def hd_rev last_rev)
  qed
  moreover have "distinct c" by (rule pred_links_distinct [OF c(5,2,4)])
  moreover have "set c \<subseteq> graph_nodes g" using c(6) \<open>t \<in> graph_nodes g\<close> by auto
  ultimately show ?thesis using c(1) by auto
qed

lemma found_returns:
  assumes "reach g s t st" "t \<notin> visited st" "distances st t = Some (Fin d)"
  shows "\<exists>r. build_path (predecessors st) (Some t) [] = Some r"
  using build_path_chain [OF found_chain [OF assms]] .

lemma exhausted_unreachable:
  assumes "reach g s t st" "pq st = []"
  shows "\<not> is_path g s p t c"
proof
  assume path: "is_path g s p t c"
  have tab: "tables_ok g s t st" by (rule reach_tables_ok [OF assms(1)])
  then have s: "s \<in> visited st" and t: "t \<notin> visited st" using assms(2) by (auto simp: tables_ok_def)
  obtain u v w c1 c2 p1 p2 where "is_path g s p1 u c1" and uv: "u \<in> visited st" "v \<notin> visited st"
    "edge_weight g u v = Some w" and "is_path g v p2 t c2" "c = c1 + w + c2"
    using is_path_exit [OF path s t] by blast
  obtain items where items: "map_of g u = Some items" "(v, w) \<in> set items"
    using edge_weight_SomeD [OF uv(3)] by blast
  have "case (v, w) of (v, w) \<Rightarrow> v \<in> visited st \<or>
          (\<exists>du dv. distances st u = Some (Fin du) \<and> distances st v = Some (Fin dv) \<and> dv \<le> du + w)"
    using reach_relaxed_ok [OF assms(1)] uv(1) items unfolding relaxed_ok_def by blast
  then obtain dv where "distances st v = Some (Fin dv)" using uv(2) by auto
  then have "(dv, v) \<in> set (pq st)"
    using reach_frontier_ok [OF assms(1)] uv(2) by (simp add: frontier_ok_def)
  then show False using assms(2) by simp
qed

lemma no_Raised:
  assumes "reach g s t st" "closed_graph g"
  shows "step g t st \<noteq> Inr (Raised e)"
proof
  assume "step g t st = Inr (Raised e)"
  then obtain d n h' items where pop: "heappop (pq st) = Some ((d, n), h')" "n \<notin> visited st"
    "map_of g n = Some items" "relax n d items (st\<lparr>pq := h', visited := insert n (visited st)\<rparr>) = Inl e"
    using step_Raised by blast
  obtain v where e: "e = KeyError v" by (cases e)
  obtain w where vw: "(v, w) \<in> set items" and "distances st v = None"
    using relax_Inl pop(4) e by fastforce
  then have "v \<notin> graph_nodes g" using reach_tables_ok [OF assms(1)] by (simp add: tables_ok_def)
  moreover have "(n, items) \<in> set g" using pop(3) by (rule map_of_SomeD)
  ultimately show False using assms(2) vw unfolding closed_graph_def by fastforce
qed

end
