(* ===== verification/Optimality.thy ===== *)
theory Optimality
  imports Chains
begin

text \<open>
  Optimality for non-negative weights. \<open>opt_ok g s st\<close>: the distance of a
  visited node is at most the cost of any path to it from \<open>start\<close>, and at
  most every entry of \<open>pq\<close>. It holds in every reachable state, and with it
  the entry popped for an unvisited node is no larger than any path's cost
  (\<open>pop_optimal\<close>, the classical argument through the first edge that
  leaves the visited set).
\<close>

definition opt_ok :: "'n graph \<Rightarrow> 'n \<Rightarrow> 'n::linorder state \<Rightarrow> bool" where
  "opt_ok g s st \<longleftrightarrow>
     (\<forall>u du. u \<in> visited st \<longrightarrow> distances st u = Some (Fin du) \<longrightarrow> (\<forall>p c. is_path g s p u c \<longrightarrow> du \<le> c))
     \<and> (\<forall>u du. u \<in> visited st \<longrightarrow> distances st u = Some (Fin du) \<longrightarrow> (\<forall>e v. (e, v) \<in> set (pq st) \<longrightarrow> du \<le> e))"

text \<open>The heart of Dijkstra's argument: the entry popped for an unvisited node is no larger than the cost of any path to it.\<close>

lemma pop_optimal:
  assumes "reach g s t st" "nonneg_weights g" "opt_ok g s st"
    and pop: "heappop (pq st) = Some ((d, n), h')" and nv: "n \<notin> visited st"
    and path: "is_path g s p n c"
  shows "d \<le> c"
proof (cases "s \<in> visited st")
  case False
  then have "pq st = [(0, s)]" using reach_tables_ok [OF assms(1)] by (simp add: tables_ok_def)
  then have "d = 0" using pop by (simp add: heappop_def)
  moreover have "path_cost g p = Some c" using path by (simp add: is_path_def)
  then have "0 \<le> c" by (rule path_cost_nonneg [OF assms(2)])
  ultimately show ?thesis by simp
next
  case True
  obtain u v w c1 c2 p1 p2 where p1: "is_path g s p1 u c1" and uv: "u \<in> visited st" "v \<notin> visited st"
    "edge_weight g u v = Some w" and p2: "is_path g v p2 n c2" and c: "c = c1 + w + c2"
    using is_path_exit [OF path True nv] by blast
  obtain items where items: "map_of g u = Some items" "(v, w) \<in> set items"
    using edge_weight_SomeD [OF uv(3)] by blast
  have "case (v, w) of (v, w) \<Rightarrow> v \<in> visited st \<or>
          (\<exists>du dv. distances st u = Some (Fin du) \<and> distances st v = Some (Fin dv) \<and> dv \<le> du + w)"
    using reach_relaxed_ok [OF assms(1)] uv(1) items unfolding relaxed_ok_def by blast
  then obtain du dv where d: "distances st u = Some (Fin du)" "distances st v = Some (Fin dv)" "dv \<le> du + w"
    using uv(2) by auto
  have c1: "du \<le> c1" using assms(3) uv(1) d(1) p1 unfolding opt_ok_def by blast
  have mem: "(dv, v) \<in> set (pq st)"
    using reach_frontier_ok [OF assms(1)] uv(2) d(2) by (simp add: frontier_ok_def)
  have hp: "heap_inv (pq st)"
    using reach_frontier_ok [OF assms(1)] by (simp add: frontier_ok_def)
  have "(d, n) \<le> (dv, v)" using heappop_least [OF hp pop mem] .
  then have "d \<le> dv" by (auto simp: less_eq_prod_def)
  moreover note c1
  moreover have "path_cost g p2 = Some c2" using p2 by (simp add: is_path_def)
  then have "0 \<le> c2" by (rule path_cost_nonneg [OF assms(2)])
  ultimately show ?thesis using d(3) c by linarith
qed

lemma opt_ok_visit:
  assumes "reach g s t st" "nonneg_weights g" "opt_ok g s st"
    and pop: "heappop (pq st) = Some ((d, n), h')" and nv: "n \<notin> visited st"
  shows "opt_ok g s (st\<lparr>pq := h', visited := insert n (visited st)\<rparr>)"
proof -
  have fr: "frontier_ok st" by (rule reach_frontier_ok [OF assms(1)])
  have dn: "distances st n = Some (Fin d)" by (rule frontier_pop_current [OF fr pop nv])
  have hp: "heap_inv (pq st)" using fr by (simp add: frontier_ok_def)
  have sub: "set h' \<subseteq> set (pq st)" using set_heappop [OF pop] by auto
  have part1: "du \<le> c" if "u \<in> insert n (visited st)" "distances st u = Some (Fin du)" "is_path g s p u c"
    for u du p c
  proof (cases "u = n")
    case True
    then have "d \<le> c" using pop_optimal [OF assms] that(3) by simp
    then show ?thesis using True that(2) dn by simp
  next
    case False
    then show ?thesis using assms(3) that unfolding opt_ok_def by blast
  qed
  have part2: "du \<le> e" if "u \<in> insert n (visited st)" "distances st u = Some (Fin du)" "(e, v) \<in> set h'"
    for u du e v
  proof (cases "u = n")
    case True
    have "(d, n) \<le> (e, v)" using heappop_least [OF hp pop] that(3) sub by blast
    then show ?thesis using True that(2) dn by (auto simp: less_eq_prod_def)
  next
    case False
    then show ?thesis using assms(3) that sub unfolding opt_ok_def by blast
  qed
  show ?thesis unfolding opt_ok_def using part1 part2 by simp
qed

lemma opt_ok_relax:
  assumes "relax n d items st = Inr st'" "opt_ok g s st" "nonneg_weights g" "map_of g n = Some items"
    and below: "\<forall>u du. u \<in> visited st \<longrightarrow> distances st u = Some (Fin du) \<longrightarrow> du \<le> d"
  shows "opt_ok g s st'"
proof -
  have "opt_ok g s st' \<and> (\<forall>u du. u \<in> visited st' \<longrightarrow> distances st' u = Some (Fin du) \<longrightarrow> du \<le> d)"
  proof (rule relax_induct_inv [where st0 = st, OF assms(1)])
    fix st1 v w dv
    assume inv: "opt_ok g s st1 \<and> (\<forall>u du. u \<in> visited st1 \<longrightarrow> distances st1 u = Some (Fin du) \<longrightarrow> du \<le> d)"
      and vw: "(v, w) \<in> set items" and nv: "v \<notin> visited st1"
    let ?st = "relax_upd st1 n v (d + w)"
    have w: "0 \<le> w" using assms(3,4) vw by (auto simp: nonneg_weights_def dest!: map_of_SomeD)
    have same: "distances ?st u = distances st1 u" if "u \<in> visited st1" for u
      using that nv by auto
    have "opt_ok g s ?st"
      unfolding opt_ok_def
    proof (intro conjI allI impI)
      fix u du p c
      assume "u \<in> visited ?st" "distances ?st u = Some (Fin du)" "is_path g s p u c"
      then show "du \<le> c" using inv same unfolding opt_ok_def by auto
    next
      fix u du e x
      assume u: "u \<in> visited ?st" "distances ?st u = Some (Fin du)" and ex: "(e, x) \<in> set (pq ?st)"
      have du: "distances st1 u = Some (Fin du)" "u \<in> visited st1" using u same by auto
      show "du \<le> e"
      proof (cases "(e, x) = (d + w, v)")
        case True
        then show ?thesis using inv du w by auto
      next
        case False
        then have "(e, x) \<in> set (pq st1)" using ex by auto
        then show ?thesis using inv du unfolding opt_ok_def by blast
      qed
    qed
    moreover have "\<forall>u du. u \<in> visited ?st \<longrightarrow> distances ?st u = Some (Fin du) \<longrightarrow> du \<le> d"
      using inv same by auto
    ultimately show "opt_ok g s ?st \<and> (\<forall>u du. u \<in> visited ?st \<longrightarrow> distances ?st u = Some (Fin du) \<longrightarrow> du \<le> d)"
      by blast
  qed (use assms(2) below in auto)
  then show ?thesis ..
qed

lemma reach_opt_ok: "reach g s t st \<Longrightarrow> nonneg_weights g \<Longrightarrow> opt_ok g s st"
proof (induction rule: reach.induct)
  case init
  show ?case by (simp add: opt_ok_def)
next
  case (step st st')
  have ok: "opt_ok g s st" using step.IH step.prems by simp
  from step.hyps(2) show ?case
  proof (cases rule: step_Inl_cases)
    case (discard d n h')
    have sub: "set h' \<subseteq> set (pq st)" using set_heappop [OF discard(1)] by auto
    show ?thesis
      unfolding opt_ok_def discard(4)
    proof (intro conjI allI impI)
      fix u du p c
      assume "u \<in> visited (st\<lparr>pq := h'\<rparr>)" "distances (st\<lparr>pq := h'\<rparr>) u = Some (Fin du)"
        "is_path g s p u c"
      then show "du \<le> c" using ok unfolding opt_ok_def by simp
    next
      fix u du e v
      assume a: "u \<in> visited (st\<lparr>pq := h'\<rparr>)" "distances (st\<lparr>pq := h'\<rparr>) u = Some (Fin du)"
        "(e, v) \<in> set (pq (st\<lparr>pq := h'\<rparr>))"
      then have "(e, v) \<in> set (pq st)" "u \<in> visited st" "distances st u = Some (Fin du)"
        using sub by auto
      then show "du \<le> e" using ok unfolding opt_ok_def by blast
    qed
  next
    case (leaf d n h')
    then show ?thesis using opt_ok_visit [OF step.hyps(1) step.prems ok leaf(1,3)] by simp
  next
    case (expand d n h' items)
    let ?st2 = "st\<lparr>pq := h', visited := insert n (visited st)\<rparr>"
    have ok2: "opt_ok g s ?st2" using opt_ok_visit [OF step.hyps(1) step.prems ok expand(1,3)] .
    have fr: "frontier_ok st" by (rule reach_frontier_ok [OF step.hyps(1)])
    have dn: "distances st n = Some (Fin d)" by (rule frontier_pop_current [OF fr expand(1,3)])
    have "(d, n) \<in> set (pq st)" using set_heappop [OF expand(1)] by simp
    then have "\<forall>u du. u \<in> visited ?st2 \<longrightarrow> distances ?st2 u = Some (Fin du) \<longrightarrow> du \<le> d"
      using ok dn unfolding opt_ok_def by (auto simp del: prod.collapse) blast
    then show ?thesis using opt_ok_relax [OF expand(5) ok2 step.prems expand(4)] by simp
  qed
qed

end
