(* ===== verification/Correctness.thy ===== *)
theory Correctness
  imports Optimality
begin

text \<open>
  From the invariants of the loop to the value \<open>dijkstra\<close> returns: the case
  \<open>start = end\<close>, what a returned finite distance and an infinite one tell of
  the state the loop stopped in, and the two halves of correctness of a
  returned \<open>(d, path)\<close>: the path is a path of the graph of cost \<open>d\<close>
  (for any weights, on a graph a dict can be), and no path is cheaper (for
  non-negative weights); the path has no repeated node; no \<open>KeyError\<close> on a
  closed graph. Last, \<open>path_preds\<close> writes a path into a \<open>predecessors\<close>
  table, and the reconstruction loop reads it back.
\<close>

text \<open>
  A path as the table \<open>predecessors\<close> that encodes it: the first node has
  the Python value \<open>None\<close>, every other node its predecessor on the path.
\<close>

fun path_preds :: "'n option \<Rightarrow> 'n list \<Rightarrow> 'n \<rightharpoonup> 'n option" where
  "path_preds prev [] = Map.empty"
| "path_preds prev (x # xs) = (path_preds (Some x) xs)(x \<mapsto> prev)"

lemma run_init_same: "run g s (init_state g s) = Found 0 s ((init_state g s)\<lparr>pq := []\<rparr>)"
  by (simp add: run.simps step_def heappop_def)

lemma dijkstra_start_target:
  "dijkstra g s s = (if s \<in> graph_nodes g then Some (Inr (Fin 0, [s])) else Some (Inl (KeyError s)))"
  by (simp add: dijkstra_def run_init_same build_path.simps predecessors_init)

lemma dijkstra_FinD:
  assumes "dijkstra g s t = Some (Inr (Fin d, p))"
  shows "\<exists>st. reach g s t st \<and> t \<notin> visited st \<and> distances st t = Some (Fin d)
             \<and> (\<exists>h'. heappop (pq st) = Some ((d, t), h'))
             \<and> build_path (predecessors st) (Some t) [] = Some (Inr (rev p))
             \<and> (t \<in> graph_nodes g \<or> t \<noteq> s)"
proof (cases "run g t (init_state g s)")
  case (Found d' n st1)
  then obtain path where bp: "build_path (predecessors st1) (Some n) [] = Some (Inr path)"
    and dp: "d' = d" "p = rev path"
    using assms by (auto simp: dijkstra_def split: option.splits sum.splits)
  obtain st where "reach g s t st" "n = t" "t \<notin> visited st" "distances st t = Some (Fin d')"
    "predecessors st1 = predecessors st" "\<exists>h'. heappop (pq st) = Some ((d', t), h')"
    using run_Found [OF Found] by blast
  moreover have "t \<in> graph_nodes g \<or> t \<noteq> s"
    using assms by (auto simp: dijkstra_start_target)
  ultimately show ?thesis using bp dp by auto
qed (use assms in \<open>auto simp: dijkstra_def\<close>)

lemma dijkstra_InfD:
  assumes "dijkstra g s t = Some (Inr (Inf, p))"
  shows "p = [] \<and> (\<exists>st. reach g s t st \<and> pq st = [])"
proof (cases "run g t (init_state g s)")
  case Exhausted
  obtain st where "reach g s t st" "step g t st = Inr Exhausted"
    using run_reach [OF reach.init Exhausted] by blast
  then show ?thesis using assms Exhausted by (auto simp: dijkstra_def step_Exhausted)
qed (use assms in \<open>auto simp: dijkstra_def split: option.splits sum.splits\<close>)

lemma found_valid:
  assumes "wf_graph g" "dijkstra g s t = Some (Inr (Fin d, p))"
  shows "is_path g s p t d"
proof -
  obtain st where st: "reach g s t st" "t \<notin> visited st" "distances st t = Some (Fin d)"
    "build_path (predecessors st) (Some t) [] = Some (Inr (rev p))" "t \<in> graph_nodes g \<or> t \<noteq> s"
    using dijkstra_FinD [OF assms(2)] by blast
  obtain c where "build_path (predecessors st) (Some t) [] = Some (Inr c)"
    "wf_graph g \<longrightarrow> is_path g s (rev c) t d"
    using found_path [OF st(1-3,5)] by blast
  then show ?thesis using st(4) assms(1) by auto
qed

lemma found_distinct:
  assumes "dijkstra g s t = Some (Inr (Fin d, p))"
  shows "distinct p \<and> set p \<subseteq> graph_nodes g"
proof -
  obtain st where st: "reach g s t st" "t \<notin> visited st" "distances st t = Some (Fin d)"
    "build_path (predecessors st) (Some t) [] = Some (Inr (rev p))" "t \<in> graph_nodes g \<or> t \<noteq> s"
    using dijkstra_FinD [OF assms] by blast
  obtain c where "build_path (predecessors st) (Some t) [] = Some (Inr c)"
    "distinct c" "set c \<subseteq> graph_nodes g"
    using found_path [OF st(1-3,5)] by blast
  then show ?thesis using st(4) by auto
qed

lemma card_graph_nodes: "card (graph_nodes g) \<le> length g"
  unfolding graph_nodes_def by (metis card_length length_map)

lemma found_least:
  assumes "nonneg_weights g" "dijkstra g s t = Some (Inr (Fin d, p))" "is_path g s q t c"
  shows "d \<le> c"
proof -
  obtain st h' where st: "reach g s t st" "t \<notin> visited st" "heappop (pq st) = Some ((d, t), h')"
    using dijkstra_FinD [OF assms(2)] by blast
  show ?thesis by (rule pop_optimal [OF st(1) assms(1) reach_opt_ok [OF st(1) assms(1)] st(3,2) assms(3)])
qed

lemma dijkstra_Inr_closed:
  assumes "closed_graph g" "s \<in> graph_nodes g \<or> s \<noteq> t"
  shows "\<exists>d p. dijkstra g s t = Some (Inr (d, p))"
proof (cases "run g t (init_state g s)")
  case (Found d n st1)
  obtain st where st: "reach g s t st" "n = t" "t \<notin> visited st" "distances st t = Some (Fin d)"
    "predecessors st1 = predecessors st"
    using run_Found [OF Found] by blast
  obtain c where "build_path (predecessors st) (Some t) [] = Some (Inr c)"
    using found_path [OF st(1,3,4)] assms(2) by blast
  then show ?thesis using Found st(2,5) by (simp add: dijkstra_def)
next
  case (Raised e)
  obtain st where "reach g s t st" "step g t st = Inr (Raised e)"
    using run_reach [OF reach.init Raised] by blast
  then show ?thesis using no_Raised [OF _ assms(1)] by blast
qed (simp add: dijkstra_def)

subsection \<open>Encoding a path as a predecessor table\<close>

lemma build_path_step:
  "P x = Some q \<Longrightarrow> build_path P (Some x) acc = build_path P q (acc @ [x])"
  by (subst build_path.simps) simp

lemma build_path_path_preds:
  assumes "distinct p" "p \<noteq> []" "\<forall>v \<in> set p. P v = path_preds prev p v"
  shows "build_path P (Some (last p)) acc = build_path P prev (acc @ rev p)"
  using assms
proof (induction prev p arbitrary: acc rule: path_preds.induct)
  case (2 prev x xs)
  show ?case
  proof (cases xs)
    case Nil
    then have "P x = Some prev" using "2.prems"(3) by simp
    then show ?thesis using Nil by (simp add: build_path_step)
  next
    case (Cons y ys)
    have "\<forall>v \<in> set xs. P v = path_preds (Some x) xs v" using "2.prems" by auto
    then have "build_path P (Some (last xs)) acc = build_path P (Some x) (acc @ rev xs)"
      using "2.IH" "2.prems"(1) Cons by simp
    moreover have "P x = Some prev" using "2.prems"(3) by simp
    ultimately show ?thesis using Cons by (simp add: build_path_step)
  qed
qed simp

end
