(* ===== verification/Demo.thy ===== *)
theory Demo
  imports Dijkstra "HOL-Library.List_Lexorder" "HOL-Library.Char_ord"
begin

text \<open>
  The \<open>__main__\<close> block of \<open>src/dijkstra.py\<close> (lines 64--118): the two
  literal graphs, and the two queries on \<open>cities\<close> with what they print.
  Nodes are strings, ordered as Python orders \<open>str\<close> (lexicographically,
  by code point), which fixes how \<open>heapq\<close> breaks ties between equal
  distances. Printing is modelled as the list of lines written to standard
  output; an exception escaping \<open>dijkstra\<close> stops the script after the lines
  already printed.
\<close>

text \<open>Lines 72--78: \<open>city_graph\<close>, the graph of scenario 1 of the specification.\<close>

definition sample_graph :: "string graph" where
  "sample_graph =
     [(''A'', [(''B'', 1), (''D'', 2)]), (''B'', [(''C'', 4), (''E'', 1)]), (''C'', []),
      (''D'', [(''E'', 5)]), (''E'', [(''C'', 3)])]"

text \<open>Lines 84--93: \<open>cities\<close>.\<close>

definition cities :: "string graph" where
  "cities =
     [(''New York'', [(''Boston'', 215), (''Philadelphia'', 95)]),
      (''Boston'', [(''New York'', 215), (''Montreal'', 310)]),
      (''Philadelphia'', [(''New York'', 95), (''Washington DC'', 140), (''Pittsburgh'', 305)]),
      (''Washington DC'', [(''Philadelphia'', 140), (''Charlotte'', 400)]),
      (''Pittsburgh'', [(''Philadelphia'', 305), (''Columbus'', 185)]),
      (''Montreal'', [(''Boston'', 310)]),
      (''Charlotte'', [(''Washington DC'', 400)]),
      (''Columbus'', [(''Pittsburgh'', 185)])]"

text \<open>\<open>str\<close> of a Python \<open>int\<close>, as the f-string \<open>{dist}\<close> of line 102 formats it.\<close>

fun str_nat :: "nat \<Rightarrow> string \<Rightarrow> string" where
  "str_nat n acc =
     (let acc' = char_of (48 + n mod 10) # acc in
      if n < 10 then acc' else str_nat (n div 10) acc')"

definition str_int :: "int \<Rightarrow> string" where
  "str_int i = (if 0 \<le> i then str_nat (nat i) [] else CHR ''-'' # str_nat (nat (- i)) [])"

text \<open>\<open>sep.join(xs)\<close> (line 103).\<close>

fun join :: "string \<Rightarrow> string list \<Rightarrow> string" where
  "join sep [] = []"
| "join sep [x] = x"
| "join sep (x # y # xs) = x @ sep @ join sep (y # xs)"

text \<open>
  Lines 98--105 (and 108--118): one query. The result is the lines printed and
  the exception that stopped the script, if any; \<open>None\<close> if \<open>dijkstra\<close>
  does not return.
\<close>

definition demo_query :: "string graph \<Rightarrow> string \<Rightarrow> string \<Rightarrow> (string list \<times> string error option) option" where
  "demo_query graph start_city end_city =
     (let header = ''Finding shortest path from '' @ start_city @ '' to '' @ end_city @ ''...'' in
      case dijkstra graph start_city end_city of
        None \<Rightarrow> None
      | Some (Inl err) \<Rightarrow> Some ([header], Some err)
      | Some (Inr (dist, path)) \<Rightarrow>
          Some (header #
                (case dist of
                   Fin d \<Rightarrow> [''Shortest Distance: '' @ str_int d, ''Path: '' @ join '' -> '' path]
                 | Inf \<Rightarrow> [''No path found between '' @ start_city @ '' and '' @ end_city]),
                None))"

text \<open>Lines 95--118: the two queries, separated by the line \<open>"-" * 20\<close>.\<close>

definition demo_main :: "(string list \<times> string error option) option" where
  "demo_main =
     (case demo_query cities ''New York'' ''Columbus'' of
        None \<Rightarrow> None
      | Some (out1, Some err) \<Rightarrow> Some (out1, Some err)
      | Some (out1, None) \<Rightarrow>
          (case demo_query cities ''Boston'' ''Washington DC'' of
             None \<Rightarrow> None
           | Some (out2, err) \<Rightarrow> Some (out1 @ [replicate 20 (CHR ''-'')] @ out2, err)))"

declare str_nat.simps [simp del]

lemmas run_eval = dijkstra_def init_state_def run.simps step_def heappush_def heappop_def
  siftdown_def siftup_def siftdown_loop.simps siftup_loop.simps build_path.simps Let_def

lemma dash_line: "replicate 20 (CHR ''-'') = ''--------------------''"
  by (simp add: numeral_eq_Suc)

text \<open>
  What the demo prints (lines 95--118), evaluated in the kernel: the two queries on \<open>cities\<close>
  find New York to Columbus at 585 through Philadelphia and Pittsburgh, and
  Boston to Washington DC at 450 through New York and Philadelphia; the script
  ends normally.
\<close>

theorem demo_main_output:
  "demo_main = Some ([''Finding shortest path from New York to Columbus...'',
     ''Shortest Distance: 585'', ''Path: New York -> Philadelphia -> Pittsburgh -> Columbus'',
     ''--------------------'', ''Finding shortest path from Boston to Washington DC...'',
     ''Shortest Distance: 450'', ''Path: Boston -> New York -> Philadelphia -> Washington DC''], None)"
  by (simp add: demo_main_def demo_query_def cities_def run_eval str_int_def str_nat.simps
      char_of_def bit_0 dash_line)

end
