(* ===== verification/Spec2Isabelle.thy ===== *)
theory Spec2Isabelle
  imports Correctness Demo
begin

text \<open>
  \<^bold>\<open>A verification library for \<open>src/dijkstra.py\<close>.\<close>

  \<^bold>\<open>The program.\<close> One Python function, \<open>dijkstra(graph, start, end)\<close>
  (lines 3--62), returns \<open>(distance, path)\<close> for the least-cost path from
  \<open>start\<close> to \<open>end\<close> in a graph given as a dict of dicts
  \<open>{node: {neighbor: weight}}\<close>. It keeps four local structures: the frontier
  \<open>pq\<close> (a \<open>heapq\<close> list of \<open>(distance, node)\<close> tuples with stale entries
  left in place), the table \<open>distances\<close> (every key of \<open>graph\<close> at
  \<open>float('inf')\<close>, \<open>start\<close> at 0), the table \<open>predecessors\<close> and the set
  \<open>visited\<close>. The loop \<open>while pq:\<close> pops the least entry, returns at once
  when it is the target (rebuilding the path through \<open>predecessors\<close>),
  skips a node already visited, and otherwise visits it and relaxes its edges.
  The only other part of the system is Python's \<open>heapq\<close> module, which the
  function calls; the \<open>__main__\<close> block (lines 64--118) is a demo that prints.

  \<^bold>\<open>The theories.\<close>
  \<^item> \<open>Prelude\<close>: heap index arithmetic (\<open>parent\<close>) and multiset facts about
    moving an element through a hole, with the collections \<open>heap_index\<close> and
    \<open>mset_moves\<close>.
  \<^item> \<open>Heapq\<close>: CPython's \<open>heapq.heappush\<close>, \<open>heappop\<close>, \<open>_siftdown\<close>,
    \<open>_siftup\<close> on lists (\<open>siftdown_loop\<close> and \<open>siftup_loop\<close> are the two
    \<open>while\<close> loops, with measure termination proofs). Its lemmas prove the
    module's contract: both operations keep the heap invariant \<open>heap_inv\<close>,
    \<open>heappush\<close> adds its item to the multiset of entries, and \<open>heappop\<close>
    removes and returns the least entry (\<open>heappop_least_Min\<close>); this refines
    the multiset priority queue \<open>pq_insert\<close>/\<open>pq_pop_min\<close>.
  \<^item> \<open>Graph\<close>: the graph type (association lists of association lists, so
    that iteration order is the dicts'), the value \<open>ext\<close> (an integer or
    \<open>float('inf')\<close>, ordered as Python orders them), and the vocabulary of
    the specification: \<open>edge_weight\<close> (\<open>graph[u][v]\<close>), \<open>path_cost\<close>,
    \<open>is_path\<close>, and the side conditions \<open>wf_graph\<close> (no duplicate keys, as
    in a dict), \<open>nonneg_weights\<close> and \<open>closed_graph\<close> (every neighbour is a
    key).
  \<^item> \<open>Relaxation\<close>: the loop state as the record \<open>state\<close> (fields \<open>pq\<close>,
    \<open>distances\<close>, \<open>predecessors\<close>, \<open>visited\<close>), the initial state
    \<open>init_state\<close> (lines 21--31), the relaxation loop \<open>relax\<close> (lines 50--60)
    and one iteration \<open>step\<close> of \<open>while pq:\<close> (lines 33--60), whose exits are
    the datatype \<open>loop_exit\<close>. A \<open>KeyError\<close> is the value \<open>KeyError n\<close> of
    the datatype \<open>error\<close>. \<open>step_progress\<close> shows that an iteration
    finalises a new node of the graph or shrinks the frontier. The reference
    \<open>relax_spec\<close> describes the relaxation loop pointwise (first missing key
    raises; each strictly improved neighbour gets its candidate, its
    predecessor and one frontier entry), and \<open>relax_refines_spec\<close> (C13)
    proves the loop equal to it on neighbour lists without repeated keys.
  \<^item> \<open>Dijkstra\<close>: the loop \<open>run\<close> (a \<open>function\<close> whose termination is
    proved with the lexicographic measure (unvisited nodes of the graph,
    frontier length)), the path reconstruction \<open>build_path\<close> (lines 38--41, a
    \<open>partial_function (option)\<close>, since the code itself does not bound it)
    and the entry point \<open>dijkstra\<close>, whose value is \<open>None\<close> for
    non-termination, \<open>Some (Inl e)\<close> for an exception and
    \<open>Some (Inr (d, path))\<close> for the returned tuple.
  \<^item> \<open>Invariants\<close>: the states the loop reaches, the inductive \<open>reach\<close>,
    with the frontier invariant \<open>frontier_ok\<close> (\<open>pq\<close> is a heap, its entries
    bound the recorded distances, every unvisited node with a finite distance
    has its entry) and the shape invariant \<open>tables_ok\<close>, each by rule
    induction over \<open>reach\<close>.
  \<^item> \<open>Chains\<close>: the predecessor links (\<open>chain_in\<close>, \<open>preds_ok\<close>: every
    link is an edge from a visited node realising the recorded distance, and
    the chains stop), the relaxation invariant \<open>relaxed_ok\<close>, and from them
    the exits of the loop: the reconstruction returns a path without repeated
    nodes (\<open>pred_links_distinct\<close>) of the returned cost, an empty frontier
    means no path, and no \<open>KeyError\<close> on a closed graph.
  \<^item> \<open>Optimality\<close>: \<open>opt_ok\<close>, the distance of a visited node is at most
    the cost of every path to it, by the classical argument through the first
    edge that leaves the visited set (\<open>pop_optimal\<close>).
  \<^item> \<open>Correctness\<close>: what a returned value tells of the final state, and the
    encoding \<open>path_preds\<close> of a path as a \<open>predecessors\<close> table.
  \<^item> \<open>Demo\<close>: the \<open>__main__\<close> block (lines 64--118): \<open>sample_graph\<close>
    (\<open>city_graph\<close>), \<open>cities\<close>, the printing of one query
    (\<open>demo_query\<close>, with \<open>str\<close> of an integer as \<open>str_int\<close> and
    \<open>' -> '.join\<close> as \<open>join\<close>) and the script \<open>demo_main\<close>; output is
    the list of printed lines, with the exception that ended the script.
  \<^item> This theory: the end-to-end properties, the invariants stated for
    readers of the code, and the scenarios of the specification, evaluated in
    the kernel by \<open>simp\<close>.

  \<^bold>\<open>What is proved.\<close> Correctness of a returned finite result: a valid path
  of the returned cost for every weight (C3) and the least cost for
  non-negative weights (C1, C2); the unreachable result (C4); a finite result
  whenever a path exists on a closed graph (C5); termination of both loops
  (C6); no \<open>KeyError\<close> on closed graphs (C7); bounds on the returned path
  (C8); the invariants of section 3 of the specification (C9--C11, C14); the
  frontier as a refinement of a multiset priority queue (C12); the relaxation
  loop against its reference (C13); the round trip of the path reconstruction
  (C15); the behaviour for \<open>start = end\<close> and the \<open>KeyError\<close> paths
  (C16--C18). The last subsection evaluates the specification's scenarios and a
  graph with a negative weight in the kernel; they are examples that back the
  recorded divergences from the specification, not properties.

  \<^bold>\<open>Modelling choices.\<close> Python integers are \<open>int\<close>; node names are any
  linear order (the tuples \<open>(distance, node)\<close> are compared as Python compares
  them, lexicographically, so ties between equal distances are broken by the
  node, as in the code); strings in the scenarios are \<open>string\<close> with the
  lexicographic order of \<open>List_Lexorder\<close>, which is Python's order on
  \<open>str\<close>. No fuel is used: the main loop is total, and the one loop
  without a bound in the code is modelled with \<open>None\<close> for
  non-termination, so termination (C6) is a theorem.

  \<^bold>\<open>Not modelled.\<close> The C accelerator \<open>_heapq\<close>, which CPython uses in
  place of the Python code of \<open>heapq\<close> with the same behaviour on these
  tuples; floating-point weights (the demo and the tests use integers);
  the text of a traceback when an exception ends the demo.
\<close>

subsection \<open>A graph outside the contract\<close>

text \<open>
  A graph with one negative edge, outside the contract (section 7): the cheaper
  route \<open>A, C, B, D\<close> passes through \<open>B\<close> after \<open>B\<close> is visited.
\<close>

definition neg_graph :: "string graph" where
  "neg_graph = [(''A'', [(''B'', 1), (''C'', 2)]), (''B'', [(''D'', 1)]), (''C'', [(''B'', -5)]), (''D'', [])]"

subsection \<open>Correctness of the returned value\<close>

text \<open>
  C1. The contract of \<open>dijkstra\<close> (specification section 4.1 and the first
  two testable properties of section 8): on a graph a dict of dicts can be,
  with no negative weight, a returned finite \<open>(d, path)\<close> is a path of the
  graph from \<open>start\<close> to \<open>end\<close> of cost \<open>d\<close>, and no path from
  \<open>start\<close> to \<open>end\<close> costs less.
\<close>

theorem dijkstra_correct:
  assumes "wf_graph g" "nonneg_weights g" "dijkstra g s t = Some (Inr (Fin d, p))"
  shows "is_path g s p t d \<and> (\<forall>q c. is_path g s q t c \<longrightarrow> d \<le> c)"
  using found_valid [OF assms(1,3)] found_least [OF assms(2,3)] by blast

theorem dijkstra_correct_witness:
  "wf_graph sample_graph \<and> nonneg_weights sample_graph
   \<and> dijkstra sample_graph ''A'' ''C'' = Some (Inr (Fin 5, [''A'', ''B'', ''C'']))
   \<and> is_path sample_graph ''A'' [''A'', ''B'', ''C''] ''C'' 5
   \<and> is_path sample_graph ''A'' [''A'', ''D'', ''E'', ''C''] ''C'' 10 \<and> (5::int) \<le> 10"
proof -
  have h1: "wf_graph sample_graph" by (simp add: sample_graph_def wf_graph_def)
  have h2: "nonneg_weights sample_graph" by (simp add: sample_graph_def nonneg_weights_def)
  have h3: "dijkstra sample_graph ''A'' ''C'' = Some (Inr (Fin 5, [''A'', ''B'', ''C'']))"
    by (simp add: sample_graph_def run_eval)
  have h4: "is_path sample_graph ''A'' [''A'', ''D'', ''E'', ''C''] ''C'' 10"
    by (simp add: sample_graph_def is_path_def edge_weight_def)
  show ?thesis using dijkstra_correct [OF h1 h2 h3] h1 h2 h3 h4 by simp
qed

text \<open>
  C2. Optimality alone needs only non-negative weights: a returned finite
  distance is at most the cost of every path from \<open>start\<close> to \<open>end\<close>.
\<close>

theorem dijkstra_least:
  assumes "nonneg_weights g" "dijkstra g s t = Some (Inr (Fin d, p))" "is_path g s q t c"
  shows "d \<le> c"
  by (rule found_least [OF assms])

theorem dijkstra_least_witness:
  "nonneg_weights sample_graph
   \<and> dijkstra sample_graph ''A'' ''C'' = Some (Inr (Fin 5, [''A'', ''B'', ''C'']))
   \<and> is_path sample_graph ''A'' [''A'', ''B'', ''E'', ''C''] ''C'' 5 \<and> (5::int) \<le> 5"
proof -
  have h1: "nonneg_weights sample_graph" by (simp add: sample_graph_def nonneg_weights_def)
  have h2: "dijkstra sample_graph ''A'' ''C'' = Some (Inr (Fin 5, [''A'', ''B'', ''C'']))"
    by (simp add: sample_graph_def run_eval)
  have h3: "is_path sample_graph ''A'' [''A'', ''B'', ''E'', ''C''] ''C'' 5"
    by (simp add: sample_graph_def is_path_def edge_weight_def)
  show ?thesis using dijkstra_least [OF h1 h2 h3] h1 h2 h3 by simp
qed

text \<open>
  C3. Validity of the returned path holds for every weight, negative ones
  included: a returned \<open>(d, path)\<close> with finite \<open>d\<close> is a path of the graph
  from \<open>start\<close> to \<open>end\<close> whose weights sum to \<open>d\<close>.
\<close>

theorem dijkstra_path_valid:
  assumes "wf_graph g" "dijkstra g s t = Some (Inr (Fin d, p))"
  shows "is_path g s p t d"
  by (rule found_valid [OF assms])

theorem dijkstra_path_valid_witness:
  "wf_graph neg_graph
   \<and> dijkstra neg_graph ''A'' ''D'' = Some (Inr (Fin 2, [''A'', ''B'', ''D'']))
   \<and> is_path neg_graph ''A'' [''A'', ''B'', ''D''] ''D'' 2"
proof -
  have h1: "wf_graph neg_graph" by (simp add: neg_graph_def wf_graph_def)
  have h2: "dijkstra neg_graph ''A'' ''D'' = Some (Inr (Fin 2, [''A'', ''B'', ''D'']))"
    by (simp add: neg_graph_def run_eval)
  show ?thesis using dijkstra_path_valid [OF h1 h2] h1 h2 by simp
qed

text \<open>
  C4. The unreachable case (section 8): when the function returns the infinite
  distance, the path is empty and there is no path at all from \<open>start\<close> to
  \<open>end\<close>.
\<close>

theorem dijkstra_unreachable:
  assumes "dijkstra g s t = Some (Inr (Inf, p))"
  shows "p = [] \<and> (\<forall>q c. \<not> is_path g s q t c)"
  using dijkstra_InfD [OF assms] exhausted_unreachable by blast

theorem dijkstra_unreachable_witness:
  "dijkstra sample_graph ''C'' ''A'' = Some (Inr (Inf, []))
   \<and> (\<forall>q c. \<not> is_path sample_graph ''C'' q ''A'' c)"
proof -
  have h: "dijkstra sample_graph ''C'' ''A'' = Some (Inr (Inf, []))"
    by (simp add: sample_graph_def run_eval)
  show ?thesis using dijkstra_unreachable [OF h] h by simp
qed

text \<open>
  C5. Liveness of the search: on a graph where every neighbour is a key, when
  some path leads from \<open>start\<close> to \<open>end\<close> (and \<open>start = end\<close> is not a
  missing key), the function returns a finite distance.
\<close>

theorem dijkstra_reachable_finite:
  assumes "closed_graph g" "s \<in> graph_nodes g \<or> s \<noteq> t" "is_path g s q t c"
  shows "\<exists>d p. dijkstra g s t = Some (Inr (Fin d, p))"
proof -
  obtain e p where r: "dijkstra g s t = Some (Inr (e, p))"
    using dijkstra_Inr_closed [OF assms(1,2)] by blast
  show ?thesis
  proof (cases e)
    case Inf
    then obtain st where "reach g s t st" "pq st = []" using dijkstra_InfD r by blast
    then show ?thesis using exhausted_unreachable assms(3) by blast
  qed (use r in auto)
qed

theorem dijkstra_reachable_finite_witness:
  "closed_graph cities \<and> ''New York'' \<in> graph_nodes cities
   \<and> is_path cities ''New York'' [''New York'', ''Philadelphia'', ''Pittsburgh'', ''Columbus''] ''Columbus'' 585
   \<and> (\<exists>d p. dijkstra cities ''New York'' ''Columbus'' = Some (Inr (Fin d, p)))"
proof -
  have h1: "closed_graph cities" by (simp add: cities_def closed_graph_def graph_nodes_def)
  have h2: "''New York'' \<in> graph_nodes cities" by (simp add: cities_def graph_nodes_def)
  have h3: "is_path cities ''New York'' [''New York'', ''Philadelphia'', ''Pittsburgh'', ''Columbus''] ''Columbus'' 585"
    by (simp add: cities_def is_path_def edge_weight_def)
  show ?thesis using dijkstra_reachable_finite [OF h1 _ h3] h1 h2 h3 by blast
qed

text \<open>
  C6. Termination (section 4.1): on every graph and every pair of nodes the
  function returns, a value or a \<open>KeyError\<close>; the path reconstruction loop
  never cycles.
\<close>

theorem dijkstra_returns: "dijkstra g s t \<noteq> None"
proof (cases "run g t (init_state g s)")
  case (Found d n st1)
  obtain st where st: "reach g s t st" "n = t" "t \<notin> visited st" "distances st t = Some (Fin d)"
    "predecessors st1 = predecessors st"
    using run_Found [OF Found] by blast
  obtain r where "build_path (predecessors st) (Some t) [] = Some r"
    using found_returns [OF st(1,3,4)] by blast
  then show ?thesis using Found st(2,5) by (cases r) (auto simp: dijkstra_def)
qed (auto simp: dijkstra_def)

text \<open>
  C7. No \<open>KeyError\<close> on a graph whose every neighbour is a key, unless
  \<open>start = end\<close> is not a key: the function returns a \<open>(distance, path)\<close>
  tuple.
\<close>

theorem dijkstra_no_error:
  assumes "closed_graph g" "s \<in> graph_nodes g \<or> s \<noteq> t"
  shows "\<exists>d p. dijkstra g s t = Some (Inr (d, p))"
  by (rule dijkstra_Inr_closed [OF assms])

theorem dijkstra_no_error_witness:
  "closed_graph cities \<and> ''New York'' \<in> graph_nodes cities
   \<and> (\<exists>d p. dijkstra cities ''New York'' ''Columbus'' = Some (Inr (d, p)))"
proof -
  have h1: "closed_graph cities" by (simp add: cities_def closed_graph_def graph_nodes_def)
  have h2: "''New York'' \<in> graph_nodes cities" by (simp add: cities_def graph_nodes_def)
  show ?thesis using dijkstra_no_error [OF h1] h1 h2 by blast
qed

text \<open>
  C8. Bounds on the returned path: its nodes are distinct keys of the graph, so
  it has at most as many nodes as the graph has keys.
\<close>

theorem dijkstra_path_bounds:
  assumes "dijkstra g s t = Some (Inr (Fin d, p))"
  shows "distinct p \<and> set p \<subseteq> graph_nodes g \<and> length p \<le> length g"
proof -
  have p: "distinct p" "set p \<subseteq> graph_nodes g" using found_distinct [OF assms] by simp_all
  have "length p = card (set p)" using distinct_card [OF p(1)] by simp
  also have "\<dots> \<le> card (graph_nodes g)" by (rule card_mono [OF _ p(2)]) (simp add: graph_nodes_def)
  also have "\<dots> \<le> length g" by (rule card_graph_nodes)
  finally show ?thesis using p by simp
qed

theorem dijkstra_path_bounds_witness:
  "dijkstra cities ''New York'' ''Columbus''
     = Some (Inr (Fin 585, [''New York'', ''Philadelphia'', ''Pittsburgh'', ''Columbus'']))
   \<and> distinct [''New York'', ''Philadelphia'', ''Pittsburgh'', ''Columbus'']
   \<and> length [''New York'', ''Philadelphia'', ''Pittsburgh'', ''Columbus''] \<le> length cities"
proof -
  have h: "dijkstra cities ''New York'' ''Columbus''
     = Some (Inr (Fin 585, [''New York'', ''Philadelphia'', ''Pittsburgh'', ''Columbus'']))"
    by (simp add: cities_def run_eval)
  show ?thesis using dijkstra_path_bounds [OF h] h by simp
qed

subsection \<open>Invariants of the loop\<close>

text \<open>
  C9. Finalised nodes are optimal (the glossary's "Finalized/Visited"): in every
  state the loop reaches on a graph with non-negative weights, the distance
  of a visited node is at most the cost of every path to it from
  \<open>start\<close>.
\<close>

theorem reach_visited_optimal:
  assumes "reach g s t st" "nonneg_weights g" "u \<in> visited st"
    and "distances st u = Some (Fin du)" "is_path g s p u c"
  shows "du \<le> c"
  using reach_opt_ok [OF assms(1,2)] assms(3-5) unfolding opt_ok_def by blast

theorem reach_visited_optimal_witness:
  "reach sample_graph ''A'' ''C'' (projl (step sample_graph ''C'' (init_state sample_graph ''A'')))
   \<and> nonneg_weights sample_graph
   \<and> ''A'' \<in> visited (projl (step sample_graph ''C'' (init_state sample_graph ''A'')))
   \<and> distances (projl (step sample_graph ''C'' (init_state sample_graph ''A''))) ''A'' = Some (Fin 0)
   \<and> is_path sample_graph ''A'' [''A''] ''A'' 0 \<and> (0::int) \<le> 0"
proof -
  let ?st1 = "projl (step sample_graph ''C'' (init_state sample_graph ''A''))"
  have s1: "step sample_graph ''C'' (init_state sample_graph ''A'') = Inl ?st1"
    by (simp add: sample_graph_def run_eval)
  have h1: "reach sample_graph ''A'' ''C'' ?st1" by (rule reach.step [OF reach.init s1])
  have h2: "nonneg_weights sample_graph" by (simp add: sample_graph_def nonneg_weights_def)
  have h3: "''A'' \<in> visited ?st1" "distances ?st1 ''A'' = Some (Fin 0)"
    by (simp_all add: sample_graph_def run_eval)
  have h4: "is_path sample_graph ''A'' [''A''] ''A'' 0" by (simp add: is_path_def)
  show ?thesis using reach_visited_optimal [OF h1 h2 h3 h4] h1 h2 h3 h4 by simp
qed

text \<open>
  C10. The invariant of section 3: once a node is visited it stays visited, and
  its entries in \<open>distances\<close> and \<open>predecessors\<close> never change again.
\<close>

theorem step_keeps_final:
  assumes "step g t st = Inl st'" "u \<in> visited st"
  shows "u \<in> visited st' \<and> distances st' u = distances st u \<and> predecessors st' u = predecessors st u"
  using assms(1)
proof (cases rule: step_Inl_cases)
  case (expand d n h' items)
  have "u \<in> visited (st\<lparr>pq := h', visited := insert n (visited st)\<rparr>)" using assms(2) by simp
  then show ?thesis using relax_lowers [OF expand(5)] relax_visited [OF expand(5)] assms(2)
    by (cases "u = n") auto
qed (use assms(2) in auto)

theorem step_keeps_final_witness:
  "step sample_graph ''C'' (projl (step sample_graph ''C'' (init_state sample_graph ''A'')))
     = Inl (projl (step sample_graph ''C'' (projl (step sample_graph ''C'' (init_state sample_graph ''A'')))))
   \<and> ''A'' \<in> visited (projl (step sample_graph ''C'' (init_state sample_graph ''A'')))
   \<and> ''A'' \<in> visited (projl (step sample_graph ''C'' (projl (step sample_graph ''C'' (init_state sample_graph ''A'')))))
   \<and> distances (projl (step sample_graph ''C'' (projl (step sample_graph ''C'' (init_state sample_graph ''A''))))) ''A''
       = distances (projl (step sample_graph ''C'' (init_state sample_graph ''A''))) ''A''
   \<and> predecessors (projl (step sample_graph ''C'' (projl (step sample_graph ''C'' (init_state sample_graph ''A''))))) ''A''
       = predecessors (projl (step sample_graph ''C'' (init_state sample_graph ''A''))) ''A''"
proof -
  let ?st1 = "projl (step sample_graph ''C'' (init_state sample_graph ''A''))"
  let ?st2 = "projl (step sample_graph ''C'' ?st1)"
  have h1: "step sample_graph ''C'' ?st1 = Inl ?st2" by (simp add: sample_graph_def run_eval)
  have h2: "''A'' \<in> visited ?st1" by (simp add: sample_graph_def run_eval)
  show ?thesis using step_keeps_final [OF h1 h2] h1 h2 by simp
qed

text \<open>
  C11. The distance table is monotonically non-increasing (section 3): an
  iteration of the loop never raises a node's finite distance.
\<close>

theorem step_lowers:
  assumes "step g t st = Inl st'" "distances st v = Some (Fin dv)"
  shows "\<exists>dv'. distances st' v = Some (Fin dv') \<and> dv' \<le> dv"
  using assms(1)
proof (cases rule: step_Inl_cases)
  case (expand d n h' items)
  then show ?thesis using relax_lowers [OF expand(5)] assms(2) by simp
qed (use assms(2) in auto)

theorem step_lowers_witness:
  "step [(''A'', [(''B'', 5), (''C'', 1)]), (''B'', []), (''C'', [(''B'', 1)])] ''B''
     (projl (step [(''A'', [(''B'', 5), (''C'', 1)]), (''B'', []), (''C'', [(''B'', 1)])] ''B''
       (init_state [(''A'', [(''B'', 5), (''C'', 1)]), (''B'', []), (''C'', [(''B'', 1)])] ''A'')))
     = Inl (projl (step [(''A'', [(''B'', 5), (''C'', 1)]), (''B'', []), (''C'', [(''B'', 1)])] ''B''
     (projl (step [(''A'', [(''B'', 5), (''C'', 1)]), (''B'', []), (''C'', [(''B'', 1)])] ''B''
       (init_state [(''A'', [(''B'', 5), (''C'', 1)]), (''B'', []), (''C'', [(''B'', 1)])] ''A'')))))
   \<and> distances (projl (step [(''A'', [(''B'', 5), (''C'', 1)]), (''B'', []), (''C'', [(''B'', 1)])] ''B''
       (init_state [(''A'', [(''B'', 5), (''C'', 1)]), (''B'', []), (''C'', [(''B'', 1)])] ''A''))) ''B''
       = Some (Fin 5)
   \<and> (\<exists>dv'. distances (projl (step [(''A'', [(''B'', 5), (''C'', 1)]), (''B'', []), (''C'', [(''B'', 1)])] ''B''
     (projl (step [(''A'', [(''B'', 5), (''C'', 1)]), (''B'', []), (''C'', [(''B'', 1)])] ''B''
       (init_state [(''A'', [(''B'', 5), (''C'', 1)]), (''B'', []), (''C'', [(''B'', 1)])] ''A''))))) ''B''
       = Some (Fin dv') \<and> dv' \<le> 5)"
proof -
  let ?g = "[(''A'', [(''B'', 5), (''C'', 1)]), (''B'', []), (''C'', [(''B'', 1 :: int)])]"
  let ?st1 = "projl (step ?g ''B'' (init_state ?g ''A''))"
  let ?st2 = "projl (step ?g ''B'' ?st1)"
  have h1: "step ?g ''B'' ?st1 = Inl ?st2" by (simp add: run_eval)
  have h2: "distances ?st1 ''B'' = Some (Fin 5)" by (simp add: run_eval)
  show ?thesis using step_lowers [OF h1 h2] h1 h2 by simp
qed

text \<open>
  C12. The frontier refines a multiset priority queue: in every state the loop
  reaches, \<open>heapq.heappop(pq)\<close> returns the least entry and leaves the
  multiset of the others, exactly as \<open>pq_pop_min\<close> on \<open>mset pq\<close>.
\<close>

theorem reach_frontier_refines:
  assumes "reach g s t st"
  shows "map_option (\<lambda>(x, h'). (x, mset h')) (heappop (pq st)) = pq_pop_min (mset (pq st))"
proof -
  have "heap_inv (pq st)" using reach_frontier_ok [OF assms] by (simp add: frontier_ok_def)
  then show ?thesis using heappop_refines by blast
qed

theorem reach_frontier_refines_witness:
  "reach sample_graph ''A'' ''C'' (init_state sample_graph ''A'')
   \<and> map_option (\<lambda>(x, h'). (x, mset h')) (heappop (pq (init_state sample_graph ''A'')))
       = pq_pop_min (mset (pq (init_state sample_graph ''A'')))"
  using reach_frontier_refines [OF reach.init] reach.init by blast

text \<open>
  C14. The tables keep their Python shape in every state of the loop:
  \<open>distances\<close> has exactly the keys of \<open>graph\<close> and \<open>start\<close>,
  \<open>predecessors\<close> exactly the keys of \<open>graph\<close>, and every predecessor
  recorded is a key of \<open>graph\<close>.
\<close>

theorem reach_tables_typed:
  assumes "reach g s t st"
  shows "dom (distances st) = insert s (graph_nodes g) \<and> dom (predecessors st) = graph_nodes g
         \<and> (\<forall>v u. predecessors st v = Some (Some u) \<longrightarrow> u \<in> graph_nodes g)"
proof -
  have tab: "tables_ok g s t st" by (rule reach_tables_ok [OF assms])
  have pok: "preds_ok g s st" by (rule reach_preds_ok [OF assms])
  have d: "\<And>v. distances st v = None \<longleftrightarrow> v \<notin> graph_nodes g \<and> v \<noteq> s"
    and p: "\<And>v. predecessors st v = None \<longleftrightarrow> v \<notin> graph_nodes g"
    using tab by (simp_all add: tables_ok_def)
  have "dom (distances st) = insert s (graph_nodes g)" by (auto simp: dom_def d)
  moreover have "dom (predecessors st) = graph_nodes g" by (auto simp: dom_def p)
  moreover have "\<forall>v u. predecessors st v = Some (Some u) \<longrightarrow> u \<in> graph_nodes g"
    using preds_ok_in_graph [OF pok] by blast
  ultimately show ?thesis by blast
qed

theorem reach_tables_typed_witness:
  "reach sample_graph ''A'' ''C'' (init_state sample_graph ''A'')
   \<and> dom (distances (init_state sample_graph ''A'')) = {''A'', ''B'', ''C'', ''D'', ''E''}
   \<and> dom (predecessors (init_state sample_graph ''A'')) = {''A'', ''B'', ''C'', ''D'', ''E''}"
proof -
  have "graph_nodes sample_graph = {''A'', ''B'', ''C'', ''D'', ''E''}"
    by (auto simp: sample_graph_def graph_nodes_def)
  moreover have r: "reach sample_graph ''A'' ''C'' (init_state sample_graph ''A'')" by (rule reach.init)
  ultimately show ?thesis using reach_tables_typed [OF r] by simp
qed

subsection \<open>Path reconstruction\<close>

text \<open>
  C15. Round trip of the path reconstruction (lines 38--42): a path without
  repeated nodes, written into a \<open>predecessors\<close> table (its first node
  mapped to \<open>None\<close>, every other node to the node before it), is read back
  by the reconstruction loop from its last node, reversed as the loop builds
  it.
\<close>

theorem build_path_roundtrip:
  assumes "distinct p" "p \<noteq> []"
  shows "build_path (path_preds None p) (Some (last p)) [] = Some (Inr (rev p))"
proof -
  have "build_path (path_preds None p) (Some (last p)) [] = build_path (path_preds None p) None ([] @ rev p)"
    by (rule build_path_path_preds [OF assms]) simp
  then show ?thesis by (simp add: build_path.simps)
qed

theorem build_path_roundtrip_witness:
  "distinct [''A'', ''B'', ''E'', ''C''] \<and> [''A'', ''B'', ''E'', ''C''] \<noteq> []
   \<and> build_path (path_preds None [''A'', ''B'', ''E'', ''C'']) (Some ''C'') [] = Some (Inr [''C'', ''E'', ''B'', ''A''])"
  using build_path_roundtrip [of "[''A'', ''B'', ''E'', ''C'']"] by simp

subsection \<open>Start equal to end, and the KeyError paths\<close>

text \<open>
  C16. When \<open>start = end\<close> is a node of the graph, the first pop is the target:
  the result is \<open>(0, [start])\<close>, with no relaxation.
\<close>

theorem dijkstra_same_node:
  assumes "start \<in> graph_nodes g"
  shows "dijkstra g start start = Some (Inr (Fin 0, [start]))"
  using assms
  by (simp add: dijkstra_def init_state_def run.simps step_def heappop_def
      build_path.simps map_of_map_const)

theorem dijkstra_same_node_witness:
  "''A'' \<in> graph_nodes sample_graph
   \<and> dijkstra sample_graph ''A'' ''A'' = Some (Inr (Fin 0, [''A'']))"
proof -
  have h: "''A'' \<in> graph_nodes sample_graph" by (simp add: sample_graph_def graph_nodes_def)
  show ?thesis using dijkstra_same_node [OF h] h by simp
qed

text \<open>
  C17. When \<open>start = end\<close> is not a key of the graph, the code raises
  \<open>KeyError\<close> at \<open>predecessors[current_node]\<close> (line 41); the specification
  promises \<open>(0, [start])\<close>.
\<close>

theorem dijkstra_same_node_missing:
  assumes "start \<notin> graph_nodes g"
  shows "dijkstra g start start = Some (Inl (KeyError start))"
  using assms
  by (simp add: dijkstra_def init_state_def run.simps step_def heappop_def
      build_path.simps map_of_map_const)

theorem dijkstra_same_node_missing_witness:
  "''Z'' \<notin> graph_nodes sample_graph
   \<and> dijkstra sample_graph ''Z'' ''Z'' = Some (Inl (KeyError ''Z''))"
proof -
  have h: "''Z'' \<notin> graph_nodes sample_graph" by (simp add: sample_graph_def graph_nodes_def)
  show ?thesis using dijkstra_same_node_missing [OF h] h by simp
qed

text \<open>
  C18. A neighbour of \<open>start\<close> that is not a key of the graph makes the first
  relaxation raise \<open>KeyError\<close> at \<open>distances[neighbor]\<close> (line 57), whatever
  the target; the specification says such a node is a node without edges.
\<close>

theorem dijkstra_missing_neighbour:
  assumes "start \<noteq> target" "map_of g start = Some items"
    and "(v, w) \<in> set items" "v \<notin> graph_nodes g" "v \<noteq> start"
  shows "\<exists>v'. dijkstra g start target = Some (Inl (KeyError v'))"
proof -
  let ?st = "(init_state g start)\<lparr>pq := [], visited := {start}\<rparr>"
  have "distances ?st v = None" "v \<notin> visited ?st"
    using assms(4,5) by (simp_all add: init_state_def map_of_map_const)
  then obtain v' where "relax start 0 items ?st = Inl (KeyError v')"
    using relax_KeyError [OF assms(3)] by blast
  then have "run g target (init_state g start) = Raised (KeyError v')"
    using assms(1,2) by (simp add: run.simps step_def heappop_def init_state_def)
  then show ?thesis by (simp add: dijkstra_def)
qed

theorem dijkstra_missing_neighbour_witness:
  "\<exists>v'. dijkstra [(''A'', [(''B'', 1)])] ''A'' ''C'' = Some (Inl (KeyError v'))"
  by (rule dijkstra_missing_neighbour [where items = "[(''B'', 1)]" and v = "''B''" and w = 1])
     (simp_all add: graph_nodes_def)

subsection \<open>Examples: the scenarios of the specification\<close>

text \<open>
  Scenario 1 of the specification, as the code runs it: from \<open>A\<close> to
  \<open>C\<close> the cost is 5 and the path is \<open>A, B, C\<close>. The path \<open>A, B, E, C\<close>
  also costs 5, but when \<open>E\<close> is relaxed the candidate 2 + 3 is not strictly
  less than the stored 5, so \<open>C\<close> keeps \<open>B\<close> as its predecessor.
\<close>

theorem scenario_sample_A_C:
  "dijkstra sample_graph ''A'' ''C'' = Some (Inr (Fin 5, [''A'', ''B'', ''C'']))"
  by (simp add: sample_graph_def run_eval)

text \<open>
  Scenario 4 of the specification (the demo's city graph): from New York to
  Columbus the cost is 585, through Philadelphia and Pittsburgh.
\<close>

theorem scenario_cities_NY_Columbus:
  "dijkstra cities ''New York'' ''Columbus''
     = Some (Inr (Fin 585, [''New York'', ''Philadelphia'', ''Pittsburgh'', ''Columbus'']))"
  by (simp add: cities_def run_eval)

text \<open>
  Negative weights are out of contract and the code is then not optimal:
  on \<open>neg_graph\<close> it returns cost 2 by \<open>A, B, D\<close> while the path
  \<open>A, C, B, D\<close> costs -2; the path returned is still valid (C3).
\<close>

theorem dijkstra_negative_weight:
  "dijkstra neg_graph ''A'' ''D'' = Some (Inr (Fin 2, [''A'', ''B'', ''D'']))
   \<and> is_path neg_graph ''A'' [''A'', ''C'', ''B'', ''D''] ''D'' (-2)"
  by (simp add: neg_graph_def run_eval is_path_def edge_weight_def)

end
